theory Spec2Isabelle
  imports Main "HOL-Library.Sublist"
begin

section \<open>The Luxtronik device wrapper\<close>

text \<open>
  A shallow embedding of \<^verbatim>\<open>custom_components/luxtronik/__init__.py\<close>: the class
  \<^verbatim>\<open>LuxtronikDevice\<close>, the configuration schema and \<^verbatim>\<open>setup_int\<close>.

  Python's \<^verbatim>\<open>None\<close> is HOL's \<open>None\<close> throughout: a value that may be \<^verbatim>\<open>None\<close>
  has type \<open>'v option\<close>, where \<open>'v\<close> stands for the values that are not \<^verbatim>\<open>None\<close>
  (numbers, strings). An exception is a value of type \<open>exn\<close>, and a method that may
  raise returns \<open>exn + 'a\<close>.
\<close>

subsection \<open>Exceptions, strings and lists of Python\<close>

datatype exn =
    IndexError      \<comment> \<open>list index out of range\<close>
  | RuntimeError    \<comment> \<open>\<^verbatim>\<open>threading.Lock.release\<close> on an unlocked lock\<close>
  | OverflowError   \<comment> \<open>\<^verbatim>\<open>threading.Lock.acquire\<close> with a timeout above \<^verbatim>\<open>threading.TIMEOUT_MAX\<close>\<close>
  | ValueError      \<comment> \<open>\<^verbatim>\<open>threading.Lock.acquire\<close> with a negative timeout other than -1\<close>
  | LibraryError    \<comment> \<open>any exception raised inside the luxtronik library\<close>
  | Invalid         \<comment> \<open>a configuration the schema rejects\<close>

text \<open>
  \<^verbatim>\<open>s.split(sep)\<close> for a one-character separator: the pieces between the
  separators, empty pieces kept, so \<open>n\<close> separators give \<open>n + 1\<close> pieces.
\<close>

fun py_split :: "char \<Rightarrow> string \<Rightarrow> string list" where
  "py_split sep [] = [[]]"
| "py_split sep (c # cs) =
     (if c = sep then [] # py_split sep cs
      else (case py_split sep cs of
              [] \<Rightarrow> [[c]]
            | w # ws \<Rightarrow> (c # w) # ws))"

text \<open>\<^verbatim>\<open>xs[i]\<close> for an index \<open>i \<ge> 0\<close>: IndexError out of range.\<close>

definition py_index :: "'a list \<Rightarrow> nat \<Rightarrow> exn + 'a" where
  "py_index xs i = (if i < length xs then Inr (xs ! i) else Inl IndexError)"

subsection \<open>The device handle\<close>

text \<open>
  The handle \<^verbatim>\<open>self._luxtronik\<close> is an object of the external luxtronik library
  (\<^verbatim>\<open>from luxtronik import Luxtronik as Lux\<close>). The
  wrapper reads three of its attributes, the lookup tables \<^verbatim>\<open>parameters\<close>,
  \<^verbatim>\<open>calculations\<close> and \<^verbatim>\<open>visibilities\<close>; \<^verbatim>\<open>table.get(sensor_id)\<close> is the entry of
  that name or \<^verbatim>\<open>None\<close>, and an entry has an attribute \<^verbatim>\<open>value\<close>.
\<close>

record 'v sensor =
  sensor_value :: "'v option"

record 'v Lux =
  parameters :: "string \<rightharpoonup> 'v sensor"
  calculations :: "string \<rightharpoonup> 'v sensor"
  visibilities :: "string \<rightharpoonup> 'v sensor"

text \<open>
  Modelled from the spec: the group tags \<^verbatim>\<open>CONF_PARAMETERS\<close>, \<^verbatim>\<open>CONF_CALCULATIONS\<close> and
  \<^verbatim>\<open>CONF_VISIBILITIES\<close> are imported from \<^verbatim>\<open>const.py\<close>, which is not among the sources;
  the spec names the three categories parameters, calculations, visibilities.
\<close>

definition CONF_PARAMETERS :: string where
  "CONF_PARAMETERS = ''parameters''"

definition CONF_CALCULATIONS :: string where
  "CONF_CALCULATIONS = ''calculations''"

definition CONF_VISIBILITIES :: string where
  "CONF_VISIBILITIES = ''visibilities''"

subsection \<open>Reading the cached tables\<close>

text \<open>\<^verbatim>\<open>get_sensor\<close>: three independent \<^verbatim>\<open>if\<close>s, each overwriting \<^verbatim>\<open>sensor\<close>.\<close>

definition get_sensor :: "'v Lux \<Rightarrow> string \<Rightarrow> string \<Rightarrow> 'v sensor option" where
  "get_sensor lux grp sensor_id =
     (let sensor = None;
          sensor = (if grp = CONF_PARAMETERS then parameters lux sensor_id else sensor);
          sensor = (if grp = CONF_CALCULATIONS then calculations lux sensor_id else sensor);
          sensor = (if grp = CONF_VISIBILITIES then visibilities lux sensor_id else sensor)
      in sensor)"

text \<open>\<^verbatim>\<open>get_sensor_by_id\<close>: \<^verbatim>\<open>split('.')[0]\<close>, then \<^verbatim>\<open>split('.')[1]\<close>.\<close>

definition get_sensor_by_id :: "'v Lux \<Rightarrow> string \<Rightarrow> exn + 'v sensor option" where
  "get_sensor_by_id lux group_sensor_id =
     (case py_index (py_split CHR ''.'' group_sensor_id) 0 of
        Inl e \<Rightarrow> Inl e
      | Inr grp \<Rightarrow>
          (case py_index (py_split CHR ''.'' group_sensor_id) 1 of
             Inl e \<Rightarrow> Inl e
           | Inr sensor_id \<Rightarrow> Inr (get_sensor lux grp sensor_id)))"

definition get_value :: "'v Lux \<Rightarrow> string \<Rightarrow> exn + 'v option" where
  "get_value lux group_sensor_id =
     (case get_sensor_by_id lux group_sensor_id of
        Inl e \<Rightarrow> Inl e
      | Inr sensor \<Rightarrow>
          (case sensor of
             None \<Rightarrow> Inr None
           | Some sn \<Rightarrow> Inr (sensor_value sn)))"

subsection \<open>The lock\<close>

text \<open>
  Every call of a method of the wrapper is an activation with an identifier of its own
  (\<open>tid\<close>); the activations of concurrent callers interleave.

  \<^verbatim>\<open>threading.Lock\<close> is either locked or unlocked and belongs to no thread.
  \<^verbatim>\<open>acquire(blocking=True, timeout=n)\<close> first checks \<open>n\<close>: it raises OverflowError when
  \<open>n\<close> is above \<^verbatim>\<open>threading.TIMEOUT_MAX\<close> (9223372036 seconds in CPython on 64-bit
  Linux) and ValueError when \<open>n\<close> is negative and not -1, whatever the state of the lock.
  Otherwise it returns \<^verbatim>\<open>True\<close> once it has locked the lock, and \<^verbatim>\<open>False\<close> when the
  lock stayed locked for the whole timeout; with the timeout -1 it waits without limit
  and never returns \<^verbatim>\<open>False\<close>. \<^verbatim>\<open>release()\<close> unlocks a locked lock, whoever locked it,
  and raises RuntimeError on an unlocked one. The
  field \<open>lock\<close> is \<open>None\<close> for unlocked and \<open>Some t\<close> for locked, where \<open>t\<close> is
  the activation whose \<^verbatim>\<open>acquire\<close> locked it (kept to state who is affected by a
  release; the operations never compare it). \<open>lock_log\<close> records every call on the lock:
  \<open>AcquireCall timeout result\<close>, \<open>AcquireRaise timeout exception\<close> and
  \<open>ReleaseCall raised\<close>. Time is not modelled: an \<^verbatim>\<open>acquire\<close> on a locked lock either
  goes on waiting (the activation takes no step) or gives up (it takes its step and gets
  \<^verbatim>\<open>False\<close>), which is what happens when the holder keeps the lock for longer than the
  timeout; with the timeout -1 it can only wait (\<open>lock_acquire\<close> is \<open>None\<close>).
\<close>

type_synonym tid = nat

datatype lock_event = AcquireCall int bool | AcquireRaise int exn | ReleaseCall bool

datatype 'v handle_call = ParametersSet string "'v option" | HandleWrite | HandleRead

datatype 'v warning = WriteLockTimeout string "'v option" int | ReadLockTimeout int

datatype 'v call = Update | Write string "'v option" bool | GetValue string

text \<open>
  Where an activation stands: at its first statement (\<open>Entry\<close>); inside a call on the
  handle (\<open>InSet\<close>, \<open>InWrite\<close>, \<open>InRead\<close>: the protocol operation is in flight); in the
  \<^verbatim>\<open>else\<close> branch before the warning (\<open>Warn\<close>); in the \<^verbatim>\<open>finally\<close> block before
  \<^verbatim>\<open>self.lock.release()\<close>, with the exception that is propagating, if any
  (\<open>Release\<close>); or finished, with the exception it raised or the value it returned
  (\<open>Done\<close>).
\<close>

datatype 'v pc =
    Entry | InSet | InWrite | InRead | Warn
  | Release "exn option"
  | Done "exn + 'v option"

record 'v thread =
  call :: "'v call"
  pc :: "'v pc"
  acquired :: bool   \<comment> \<open>\<^verbatim>\<open>self.lock.acquire(...)\<close> returned \<^verbatim>\<open>True\<close> to this activation\<close>

record 'v device =
  lock :: "tid option"
  host :: string
  port :: int
  lock_timeout_sec :: int
  luxtronik :: "'v Lux"
  handle_calls :: "(tid \<times> 'v handle_call) list"   \<comment> \<open>calls on the handle, in the order they began\<close>
  handle_returns :: "(tid \<times> exn option) list"    \<comment> \<open>how each ended: returned, or raised\<close>
  lock_log :: "(tid \<times> lock_event) list"
  warnings :: "(tid \<times> 'v warning) list"          \<comment> \<open>\<^verbatim>\<open>LOGGER.warning\<close>\<close>
  threads :: "'v thread list"

definition TIMEOUT_MAX :: int where
  "TIMEOUT_MAX = 9223372036"

definition acquire_error :: "int \<Rightarrow> exn option" where
  "acquire_error timeout =
     (if timeout < 0 \<and> timeout \<noteq> - 1 then Some ValueError
      else if TIMEOUT_MAX < timeout then Some OverflowError
      else None)"

definition lock_acquire :: "tid \<Rightarrow> int \<Rightarrow> 'v device \<Rightarrow> ((exn + bool) \<times> 'v device) option" where
  "lock_acquire t timeout s =
     (case acquire_error timeout of
        Some e \<Rightarrow> Some (Inl e, s\<lparr>lock_log := lock_log s @ [(t, AcquireRaise timeout e)]\<rparr>)
      | None \<Rightarrow>
          (if lock s = None
           then Some (Inr True,
                  s\<lparr>lock := Some t, lock_log := lock_log s @ [(t, AcquireCall timeout True)]\<rparr>)
           else if timeout = - 1 then None
           else Some (Inr False, s\<lparr>lock_log := lock_log s @ [(t, AcquireCall timeout False)]\<rparr>)))"

definition lock_release :: "tid \<Rightarrow> 'v device \<Rightarrow> exn option \<times> 'v device" where
  "lock_release t s =
     (if lock s = None
      then (Some RuntimeError, s\<lparr>lock_log := lock_log s @ [(t, ReleaseCall True)]\<rparr>)
      else (None, s\<lparr>lock := None, lock_log := lock_log s @ [(t, ReleaseCall False)]\<rparr>))"

subsection \<open>The statements of \<^verbatim>\<open>write\<close>, \<^verbatim>\<open>update\<close> and \<^verbatim>\<open>get_value\<close>\<close>

definition goto :: "tid \<Rightarrow> 'v pc \<Rightarrow> 'v device \<Rightarrow> 'v device" where
  "goto t p s = s\<lparr>threads := (threads s)[t := (threads s ! t)\<lparr>pc := p\<rparr>]\<rparr>"

definition got_lock :: "tid \<Rightarrow> 'v device \<Rightarrow> 'v device" where
  "got_lock t s = s\<lparr>threads := (threads s)[t := (threads s ! t)\<lparr>acquired := True\<rparr>]\<rparr>"

definition enter :: "tid \<Rightarrow> 'v handle_call \<Rightarrow> 'v device \<Rightarrow> 'v device" where
  "enter t c s = s\<lparr>handle_calls := handle_calls s @ [(t, c)]\<rparr>"

definition leave :: "tid \<Rightarrow> 'v Lux \<Rightarrow> exn option \<Rightarrow> 'v device \<Rightarrow> 'v device" where
  "leave t lux' e s = s\<lparr>luxtronik := lux', handle_returns := handle_returns s @ [(t, e)]\<rparr>"

text \<open>
  The \<^verbatim>\<open>finally\<close> block of both methods: \<^verbatim>\<open>self.lock.release()\<close>. An exception of
  \<^verbatim>\<open>release\<close> replaces the one that was propagating; otherwise the propagating one is
  raised again, and without one the method returns \<^verbatim>\<open>None\<close>.
\<close>

definition finally_release :: "tid \<Rightarrow> exn option \<Rightarrow> 'v device \<Rightarrow> 'v device" where
  "finally_release t pending s =
     (case lock_release t s of
        (Some e, s') \<Rightarrow> goto t (Done (Inl e)) s'
      | (None, s') \<Rightarrow>
          goto t (Done (case pending of None \<Rightarrow> Inr None | Some e \<Rightarrow> Inl e)) s')"

text \<open>
  The statements the wrapper itself executes in \<^verbatim>\<open>write(parameter, value,
  update_immediately_after_write)\<close>: the \<^verbatim>\<open>acquire\<close> with the call of
  \<^verbatim>\<open>parameters.set\<close> behind it, the warning, the release. An exception of \<^verbatim>\<open>acquire\<close>
  leaves the \<^verbatim>\<open>try\<close> block for the \<^verbatim>\<open>finally\<close> block, as any other does.
\<close>

fun write_stmt :: "string \<Rightarrow> 'v option \<Rightarrow> bool \<Rightarrow> tid \<Rightarrow> 'v pc \<Rightarrow> 'v device \<Rightarrow> 'v device option" where
  "write_stmt parameter val upd t Entry s =
     (case lock_acquire t (lock_timeout_sec s) s of
        None \<Rightarrow> None
      | Some (Inl e, s') \<Rightarrow> Some (goto t (Release (Some e)) s')
      | Some (Inr True, s') \<Rightarrow>
          Some (goto t InSet (enter t (ParametersSet parameter val) (got_lock t s')))
      | Some (Inr False, s') \<Rightarrow> Some (goto t Warn s'))"
| "write_stmt parameter val upd t Warn s =
     Some (goto t (Release None)
       (s\<lparr>warnings := warnings s @ [(t, WriteLockTimeout parameter val (lock_timeout_sec s))]\<rparr>))"
| "write_stmt parameter val upd t (Release pending) s = Some (finally_release t pending s)"
| "write_stmt parameter val upd t _ s = None"

text \<open>
  A call on the handle ends: the library leaves the handle as \<open>lux'\<close> and returns
  (\<open>None\<close>) or raises (\<open>Some e\<close>), which \<open>leave\<close> records. After \<^verbatim>\<open>parameters.set\<close> comes \<^verbatim>\<open>self._luxtronik.write()\<close>,
  after that \<^verbatim>\<open>self._luxtronik.read()\<close> if \<^verbatim>\<open>update_immediately_after_write\<close>; an
  exception leaves the \<^verbatim>\<open>try\<close> block for the \<^verbatim>\<open>finally\<close> block.
\<close>

fun write_lib :: "bool \<Rightarrow> tid \<Rightarrow> 'v pc \<Rightarrow> 'v Lux \<Rightarrow> exn option \<Rightarrow> 'v device \<Rightarrow> 'v device option" where
  "write_lib upd t InSet lux' None s =
     Some (goto t InWrite (enter t HandleWrite (leave t lux' None s)))"
| "write_lib upd t InWrite lux' None s =
     (if upd then Some (goto t InRead (enter t HandleRead (leave t lux' None s)))
      else Some (goto t (Release None) (leave t lux' None s)))"
| "write_lib upd t InRead lux' None s = Some (goto t (Release None) (leave t lux' None s))"
| "write_lib upd t InSet lux' (Some e) s =
     Some (goto t (Release (Some e)) (leave t lux' (Some e) s))"
| "write_lib upd t InWrite lux' (Some e) s =
     Some (goto t (Release (Some e)) (leave t lux' (Some e) s))"
| "write_lib upd t InRead lux' (Some e) s =
     Some (goto t (Release (Some e)) (leave t lux' (Some e) s))"
| "write_lib upd t _ lux' e s = None"

text \<open>
  The body of \<^verbatim>\<open>update\<close>. The decorator \<^verbatim>\<open>@Throttle(MIN_TIME_BETWEEN_UPDATES)\<close> of the
  host framework decides whether a call of \<^verbatim>\<open>update()\<close> runs this body at all; an
  activation \<open>Update\<close> is one run of the body.
\<close>

fun update_stmt :: "tid \<Rightarrow> 'v pc \<Rightarrow> 'v device \<Rightarrow> 'v device option" where
  "update_stmt t Entry s =
     (case lock_acquire t (lock_timeout_sec s) s of
        None \<Rightarrow> None
      | Some (Inl e, s') \<Rightarrow> Some (goto t (Release (Some e)) s')
      | Some (Inr True, s') \<Rightarrow> Some (goto t InRead (enter t HandleRead (got_lock t s')))
      | Some (Inr False, s') \<Rightarrow> Some (goto t Warn s'))"
| "update_stmt t Warn s =
     Some (goto t (Release None)
       (s\<lparr>warnings := warnings s @ [(t, ReadLockTimeout (lock_timeout_sec s))]\<rparr>))"
| "update_stmt t (Release pending) s = Some (finally_release t pending s)"
| "update_stmt t _ s = None"

fun update_lib :: "tid \<Rightarrow> 'v pc \<Rightarrow> 'v Lux \<Rightarrow> exn option \<Rightarrow> 'v device \<Rightarrow> 'v device option" where
  "update_lib t InRead lux' None s = Some (goto t (Release None) (leave t lux' None s))"
| "update_lib t InRead lux' (Some e) s =
     Some (goto t (Release (Some e)) (leave t lux' (Some e) s))"
| "update_lib t _ lux' e s = None"

text \<open>\<^verbatim>\<open>get_value\<close> is one step: it computes its result from the tables of the handle.\<close>

fun get_value_stmt :: "string \<Rightarrow> tid \<Rightarrow> 'v pc \<Rightarrow> 'v device \<Rightarrow> 'v device option" where
  "get_value_stmt group_sensor_id t Entry s =
     Some (goto t (Done (get_value (luxtronik s) group_sensor_id)) s)"
| "get_value_stmt group_sensor_id t _ s = None"

subsection \<open>Interleaving\<close>

text \<open>
  \<open>Call c\<close>: a caller calls a method, which makes a new activation at its first
  statement. \<open>Run t\<close>: activation \<open>t\<close> executes its next statement. \<open>Lib t lux' e\<close>:
  the call on the handle that \<open>t\<close> is in ends. A step that is not possible is
  \<open>None\<close>. An activation at \<open>Entry\<close> that does not run is waiting; when it runs while
  the lock is locked, its \<^verbatim>\<open>acquire\<close> has timed out (with the timeout -1 it cannot
  run then).
\<close>

datatype 'v action = Call "'v call" | Run tid | Lib tid "'v Lux" "exn option"

definition spawn :: "'v call \<Rightarrow> 'v device \<Rightarrow> 'v device" where
  "spawn c s = s\<lparr>threads := threads s @ [\<lparr>call = c, pc = Entry, acquired = False\<rparr>]\<rparr>"

definition step :: "'v action \<Rightarrow> 'v device \<Rightarrow> 'v device option" where
  "step a s =
     (case a of
        Call c \<Rightarrow> Some (spawn c s)
      | Run t \<Rightarrow>
          (if t < length (threads s) then
             (case call (threads s ! t) of
                Update \<Rightarrow> update_stmt t (pc (threads s ! t)) s
              | Write parameter val upd \<Rightarrow> write_stmt parameter val upd t (pc (threads s ! t)) s
              | GetValue group_sensor_id \<Rightarrow> get_value_stmt group_sensor_id t (pc (threads s ! t)) s)
           else None)
      | Lib t lux' e \<Rightarrow>
          (if t < length (threads s) then
             (case call (threads s ! t) of
                Update \<Rightarrow> update_lib t (pc (threads s ! t)) lux' e s
              | Write parameter val upd \<Rightarrow> write_lib upd t (pc (threads s ! t)) lux' e s
              | GetValue group_sensor_id \<Rightarrow> None)
           else None))"

fun run :: "'v action list \<Rightarrow> 'v device \<Rightarrow> 'v device option" where
  "run [] s = Some s"
| "run (a # as) s = (case step a s of None \<Rightarrow> None | Some s' \<Rightarrow> run as s')"

subsection \<open>Construction and setup\<close>

text \<open>
  \<^verbatim>\<open>LuxtronikDevice.__init__\<close>: a new, unlocked lock; the fields; the handle
  \<^verbatim>\<open>Lux(host, port, safe)\<close>, whose constructor is the library's (\<open>Lux_new\<close>); then
  \<^verbatim>\<open>self.update()\<close>, run to its end by the constructing caller alone (activation 0):
  the \<^verbatim>\<open>acquire\<close>; unless that raised, the read, which leaves the handle as \<open>lux'\<close> and
  returns or raises (\<open>e\<close>); the \<^verbatim>\<open>finally\<close> block. An exception of \<^verbatim>\<open>update\<close> leaves the
  constructor, and there is no device. These steps are always possible
  (\<open>init_steps_possible\<close> below), so the case \<open>None\<close> never arises.
\<close>

definition LuxtronikDevice_init ::
  "(string \<Rightarrow> int \<Rightarrow> bool \<Rightarrow> 'v Lux) \<Rightarrow> string \<Rightarrow> int \<Rightarrow> bool \<Rightarrow> int \<Rightarrow> 'v Lux \<Rightarrow> exn option
     \<Rightarrow> exn + 'v device" where
  "LuxtronikDevice_init Lux_new host_arg port_arg safe lock_timeout_sec_arg lux' e =
     (let self = \<lparr>lock = None, host = host_arg, port = port_arg,
                  lock_timeout_sec = lock_timeout_sec_arg,
                  luxtronik = Lux_new host_arg port_arg safe,
                  handle_calls = [], handle_returns = [], lock_log = [], warnings = [],
                  threads = []\<rparr>;
          update = [Call Update, Run 0]
                   @ (case acquire_error lock_timeout_sec_arg of
                        None \<Rightarrow> [Lib 0 lux' e]
                      | Some err \<Rightarrow> [])
                   @ [Run 0]
      in case run update self of
           None \<Rightarrow> Inl RuntimeError
         | Some s \<Rightarrow>
             (case pc (threads s ! 0) of
                Done (Inl e') \<Rightarrow> Inl e'
              | _ \<Rightarrow> Inr s))"

text \<open>
  \<^verbatim>\<open>CONFIG_SCHEMA\<close>, on the entries under \<^verbatim>\<open>DOMAIN\<close>, each present or absent:
  \<^verbatim>\<open>vol.Required(CONF_HOST)\<close>; \<^verbatim>\<open>vol.Required(CONF_PORT, default=DEFAULT_PORT): cv.port\<close>
  (1 to 65535); \<^verbatim>\<open>vol.Optional(CONF_SAFE, default=True)\<close>;
  \<^verbatim>\<open>vol.Optional(CONF_LOCK_TIMEOUT, default=30): cv.positive_int\<close> (an integer that is
  not negative); \<^verbatim>\<open>vol.Optional(CONF_UPDATE_IMMEDIATELY_AFTER_WRITE, default=False)\<close>.
  \<^verbatim>\<open>DEFAULT_PORT\<close> is a constant of \<^verbatim>\<open>const.py\<close>, which is not among the sources: it is a
  parameter.
\<close>

record raw_conf =
  raw_host :: "string option"
  raw_port :: "int option"
  raw_safe :: "bool option"
  raw_lock_timeout :: "int option"
  raw_update_immediately_after_write :: "bool option"

record conf =
  conf_host :: string
  conf_port :: int
  conf_safe :: bool
  conf_lock_timeout :: int
  conf_update_immediately_after_write :: bool

definition CONFIG_SCHEMA :: "int \<Rightarrow> raw_conf \<Rightarrow> exn + conf" where
  "CONFIG_SCHEMA DEFAULT_PORT raw =
     (case raw_host raw of
        None \<Rightarrow> Inl Invalid
      | Some h \<Rightarrow>
          (let p = (case raw_port raw of None \<Rightarrow> DEFAULT_PORT | Some p \<Rightarrow> p);
               sf = (case raw_safe raw of None \<Rightarrow> True | Some b \<Rightarrow> b);
               tmo = (case raw_lock_timeout raw of None \<Rightarrow> 30 | Some n \<Rightarrow> n);
               upd = (case raw_update_immediately_after_write raw of None \<Rightarrow> False | Some b \<Rightarrow> b)
           in if 1 \<le> p \<and> p \<le> 65535 \<and> 0 \<le> tmo
              then Inr \<lparr>conf_host = h, conf_port = p, conf_safe = sf, conf_lock_timeout = tmo,
                        conf_update_immediately_after_write = upd\<rparr>
              else Inl Invalid))"

text \<open>
  \<^verbatim>\<open>setup_int\<close> builds the device from the configuration (the result is what it stores
  in \<^verbatim>\<open>hass.data[DOMAIN]\<close>); its closure \<^verbatim>\<open>write_parameter\<close> calls \<^verbatim>\<open>write\<close> with the
  configured \<^verbatim>\<open>update_immediately_after_write\<close>.
\<close>

definition setup_int ::
  "(string \<Rightarrow> int \<Rightarrow> bool \<Rightarrow> 'v Lux) \<Rightarrow> conf \<Rightarrow> 'v Lux \<Rightarrow> exn option \<Rightarrow> exn + 'v device" where
  "setup_int Lux_new c lux' e =
     (let host_arg = conf_host c;
          port_arg = conf_port c;
          safe = conf_safe c;
          lock_timeout = conf_lock_timeout c
      in LuxtronikDevice_init Lux_new host_arg port_arg safe lock_timeout lux' e)"

definition write_parameter :: "conf \<Rightarrow> string \<Rightarrow> 'v option \<Rightarrow> 'v call" where
  "write_parameter c parameter val = Write parameter val (conf_update_immediately_after_write c)"

text \<open>Which activations have a protocol operation in flight, and the calls of one activation.\<close>

definition in_flight :: "'v thread \<Rightarrow> bool" where
  "in_flight th = (pc th = InSet \<or> pc th = InWrite \<or> pc th = InRead)"

definition calls_of :: "tid \<Rightarrow> 'v device \<Rightarrow> 'v handle_call list" where
  "calls_of t s = map snd (filter (\<lambda>x. fst x = t) (handle_calls s))"

definition lock_calls_of :: "tid \<Rightarrow> 'v device \<Rightarrow> lock_event list" where
  "lock_calls_of t s = map snd (filter (\<lambda>x. fst x = t) (lock_log s))"

definition returns_of :: "tid \<Rightarrow> 'v device \<Rightarrow> exn option list" where
  "returns_of t s = map snd (filter (\<lambda>x. fst x = t) (handle_returns s))"

definition warnings_of :: "tid \<Rightarrow> 'v device \<Rightarrow> 'v warning list" where
  "warnings_of t s = map snd (filter (\<lambda>x. fst x = t) (warnings s))"

text \<open>The value a table holds for a sensor id: \<^verbatim>\<open>None\<close> without an entry.\<close>

definition value_at :: "(string \<rightharpoonup> 'v sensor) \<Rightarrow> string \<Rightarrow> 'v option" where
  "value_at table sensor_id = (case table sensor_id of None \<Rightarrow> None | Some sn \<Rightarrow> sensor_value sn)"

text \<open>The calls on the handle of a \<^verbatim>\<open>write\<close> that runs its \<^verbatim>\<open>try\<close> block to the end.\<close>

definition write_calls :: "string \<Rightarrow> 'v option \<Rightarrow> bool \<Rightarrow> 'v handle_call list" where
  "write_calls parameter val upd =
     [ParametersSet parameter val, HandleWrite] @ (if upd then [HandleRead] else [])"

subsection \<open>What holds of every activation in every reachable state\<close>

text \<open>
  The invariant of the interleaved runs, one part for each thing an activation leaves
  behind. \<open>mine\<close> says that the lock is locked by the \<^verbatim>\<open>acquire\<close> of this activation;
  \<open>ls\<close>, \<open>cs\<close> and \<open>ws\<close> are its calls on the lock, its calls on the handle and its
  warnings.
\<close>

definition lock_ok :: "bool \<Rightarrow> 'v thread \<Rightarrow> bool" where
  "lock_ok mine th =
     ((mine \<longrightarrow> acquired th \<and> (in_flight th \<or> (\<exists>e. pc th = Release e)))
    \<and> (in_flight th \<longrightarrow> acquired th)
    \<and> (pc th = Entry \<or> pc th = Warn \<longrightarrow> \<not> acquired th)
    \<and> (\<forall>e. pc th = Release (Some e) \<longrightarrow> acquired th)
    \<and> (\<forall>g. call th = GetValue g \<longrightarrow> \<not> acquired th))"

definition lock_log_ok :: "int \<Rightarrow> 'v thread \<Rightarrow> lock_event list \<Rightarrow> bool" where
  "lock_log_ok tmo th ls =
     (case call th of
        GetValue g \<Rightarrow> ls = []
      | _ \<Rightarrow>
       (case pc th of
          Entry \<Rightarrow> ls = []
        | Done r \<Rightarrow>
            (\<exists>raised. ls = [AcquireCall tmo (acquired th), ReleaseCall raised]
               \<and> (raised \<longrightarrow> r = Inl RuntimeError)
               \<and> (\<not> raised \<and> \<not> acquired th \<longrightarrow> r = Inr None))
        | _ \<Rightarrow> ls = [AcquireCall tmo (acquired th)]))"

text \<open>
  The calls \<open>cs\<close> on the handle and their ends \<open>rs\<close>, for a \<^verbatim>\<open>write\<close> that has
  acquired the lock: which calls have been made and how each ended, at each place.
  \<open>raised_end\<close>: one of the calls raised, and none was made after it.
\<close>

definition raised_end :: "'v handle_call list \<Rightarrow> 'v handle_call list \<Rightarrow> exn option list \<Rightarrow> bool" where
  "raised_end full cs rs =
     ((cs = take 1 full \<and> map (\<lambda>r. r = None) rs = [False])
      \<or> (cs = take 2 full \<and> map (\<lambda>r. r = None) rs = [True, False])
      \<or> (length full = 3 \<and> cs = full \<and> map (\<lambda>r. r = None) rs = [True, True, False]))"

definition normal_end :: "'v handle_call list \<Rightarrow> 'v handle_call list \<Rightarrow> exn option list \<Rightarrow> bool" where
  "normal_end full cs rs = (cs = full \<and> rs = map (\<lambda>c. None) full)"

definition calls_ok :: "'v thread \<Rightarrow> 'v handle_call list \<Rightarrow> exn option list \<Rightarrow> bool" where
  "calls_ok th cs rs =
     (case call th of
        Write parameter val upd \<Rightarrow>
          (if acquired th then
             (case pc th of
                InSet \<Rightarrow> cs = [ParametersSet parameter val] \<and> rs = []
              | InWrite \<Rightarrow> cs = [ParametersSet parameter val, HandleWrite] \<and> rs = [None]
              | InRead \<Rightarrow> upd \<and> cs = write_calls parameter val upd \<and> rs = [None, None]
              | Release None \<Rightarrow> normal_end (write_calls parameter val upd) cs rs
              | Release (Some e) \<Rightarrow>
                  raised_end (write_calls parameter val upd) cs rs \<and> last rs = Some e
              | Done (Inr v) \<Rightarrow> normal_end (write_calls parameter val upd) cs rs
              | Done (Inl e) \<Rightarrow> normal_end (write_calls parameter val upd) cs rs
                                \<or> raised_end (write_calls parameter val upd) cs rs
              | _ \<Rightarrow> True)
           else cs = [] \<and> rs = [])
      | Update \<Rightarrow> cs = (if acquired th then [HandleRead] else [])
      | GetValue g \<Rightarrow> cs = [])"

definition warns_ok :: "int \<Rightarrow> 'v thread \<Rightarrow> 'v warning list \<Rightarrow> bool" where
  "warns_ok tmo th ws =
     (case call th of
        Update \<Rightarrow>
          ws = (if \<not> acquired th \<and> pc th \<noteq> Entry \<and> pc th \<noteq> Warn
                then [ReadLockTimeout tmo] else [])
      | Write parameter val upd \<Rightarrow>
          ws = (if \<not> acquired th \<and> pc th \<noteq> Entry \<and> pc th \<noteq> Warn
                then [WriteLockTimeout parameter val tmo] else [])
      | GetValue g \<Rightarrow> ws = [])"

definition thread_inv :: "int \<Rightarrow> 'v device \<Rightarrow> tid \<Rightarrow> bool" where
  "thread_inv tmo s t =
     (lock_ok (lock s = Some t) (threads s ! t)
      \<and> lock_log_ok tmo (threads s ! t) (lock_calls_of t s)
      \<and> calls_ok (threads s ! t) (calls_of t s) (returns_of t s)
      \<and> warns_ok tmo (threads s ! t) (warnings_of t s))"

definition device_inv :: "int \<Rightarrow> 'v device \<Rightarrow> bool" where
  "device_inv tmo s = (lock_timeout_sec s = tmo \<and> acquire_error tmo = None
     \<and> (\<forall>u. lock s = Some u \<longrightarrow> u < length (threads s))
     \<and> (\<forall>x \<in> set (handle_calls s). fst x < length (threads s))
     \<and> (\<forall>x \<in> set (handle_returns s). fst x < length (threads s))
     \<and> (\<forall>x \<in> set (lock_log s). fst x < length (threads s))
     \<and> (\<forall>x \<in> set (warnings s). fst x < length (threads s))
     \<and> (\<forall>t < length (threads s). thread_inv tmo s t))"

text \<open>How many steps an activation has left at most.\<close>

fun remaining :: "'v pc \<Rightarrow> nat" where
  "remaining Entry = 5"
| "remaining InSet = 4"
| "remaining InWrite = 3"
| "remaining InRead = 2"
| "remaining Warn = 2"
| "remaining (Release pending) = 1"
| "remaining (Done r) = 0"

subsection \<open>A concrete device\<close>

definition example_lux :: "int Lux" where
  "example_lux =
     \<lparr>parameters = [''ID_Einst_WK_akt'' \<mapsto> \<lparr>sensor_value = Some 21\<rparr>],
      calculations = [''ID_WEB_Temperatur_TVL'' \<mapsto> \<lparr>sensor_value = Some 35\<rparr>],
      visibilities = Map.empty\<rparr>"

text \<open>The device as its constructor leaves it: unlocked, its first update done.\<close>

definition example_device :: "int device" where
  "example_device =
     \<lparr>lock = None, host = ''heatpump'', port = 8889, lock_timeout_sec = 30,
      luxtronik = example_lux,
      handle_calls = [(0, HandleRead)],
      handle_returns = [(0, None)],
      lock_log = [(0, AcquireCall 30 True), (0, ReleaseCall False)],
      warnings = [],
      threads = [\<lparr>call = Update, pc = Done (Inr None), acquired = True\<rparr>]\<rparr>"

text \<open>A configuration that gives only the host, and what the schema makes of it.\<close>

definition example_raw :: raw_conf where
  "example_raw = \<lparr>raw_host = Some ''heatpump'', raw_port = None, raw_safe = None,
                   raw_lock_timeout = None, raw_update_immediately_after_write = None\<rparr>"

definition example_conf :: conf where
  "example_conf = \<lparr>conf_host = ''heatpump'', conf_port = 8889, conf_safe = True,
                    conf_lock_timeout = 30, conf_update_immediately_after_write = False\<rparr>"


text \<open>
  Five calls of \<^verbatim>\<open>write\<close> that leave by the five ways out: activation 1 runs to the
  end; 2 times out while 1 holds the lock; the \<^verbatim>\<open>parameters.set\<close> of 3 raises; the flush
  of 4 raises; the follow-up read of 5 raises.
\<close>

definition five_writes :: "int action list" where
  "five_writes =
     [Call (Write ''ID_Einst_WK_akt'' (Some 21) True),
      Call (Write ''ID_Einst_WK_akt'' (Some 22) False),
      Call (Write ''ID_Einst_WK_akt'' (Some 23) False),
      Call (Write ''ID_Einst_WK_akt'' (Some 24) False),
      Call (Write ''ID_Einst_WK_akt'' (Some 25) True),
      Run 1, Run 2, Run 2, Lib 1 example_lux None, Lib 1 example_lux None,
      Lib 1 example_lux None, Run 1, Run 2,
      Run 3, Lib 3 example_lux (Some LibraryError), Run 3,
      Run 4, Lib 4 example_lux None, Lib 4 example_lux (Some LibraryError), Run 4,
      Run 5, Lib 5 example_lux None, Lib 5 example_lux None,
      Lib 5 example_lux (Some LibraryError), Run 5]"



text \<open>The device that the configuration with the lock timeout 5 gives.\<close>

definition example_device5 :: "int device" where
  "example_device5 =
     example_device\<lparr>lock_timeout_sec := 5,
                    lock_log := [(0, AcquireCall 5 True), (0, ReleaseCall False)]\<rparr>"

section \<open>Properties\<close>

subsection \<open>Splitting an identifier\<close>

lemma py_split_no_sep: "sep \<notin> set s \<Longrightarrow> py_split sep s = [s]"
  by (induction s) auto

lemma py_split_not_Nil: "py_split sep s \<noteq> []"
  by (induction s) (auto split: list.splits)

lemma py_split_sep: "sep \<notin> set g \<Longrightarrow> py_split sep (g @ sep # r) = g # py_split sep r"
  by (induction g) auto

lemma py_split_hd: "hd (py_split sep s) = takeWhile (\<lambda>c. c \<noteq> sep) s"
  by (induction s) (auto split: list.splits simp: py_split_not_Nil)

lemma py_split_0: "py_split sep s ! 0 = takeWhile (\<lambda>c. c \<noteq> sep) s"
  using py_split_hd[of sep s] by (simp add: hd_conv_nth py_split_not_Nil)

lemma split_takeWhile:
  "sep \<in> set s \<Longrightarrow> s = takeWhile (\<lambda>c. c \<noteq> sep) s @ sep # tl (dropWhile (\<lambda>c. c \<noteq> sep) s)"
  by (induction s) auto

lemma py_split_dotted:
  assumes "sep \<in> set s"
  shows "py_split sep s =
           takeWhile (\<lambda>c. c \<noteq> sep) s # py_split sep (tl (dropWhile (\<lambda>c. c \<noteq> sep) s))"
proof -
  have "sep \<notin> set (takeWhile (\<lambda>c. c \<noteq> sep) s)"
    by (auto dest: set_takeWhileD)
  from py_split_sep[OF this, of "tl (dropWhile (\<lambda>c. c \<noteq> sep) s)"] split_takeWhile[OF assms]
  show ?thesis by simp
qed

subsection \<open>\<^verbatim>\<open>get_value\<close>\<close>

text \<open>
  C9: for every identifier that contains no dot, \<^verbatim>\<open>split('.')\<close> has one piece, the
  index 1 is out of range, and \<^verbatim>\<open>get_value\<close> raises IndexError; it does not return
  \<^verbatim>\<open>None\<close>.
\<close>

theorem get_value_no_dot:
  assumes "CHR ''.'' \<notin> set group_sensor_id"
  shows "get_value lux group_sensor_id = Inl IndexError"
  using assms
  by (simp add: get_value_def get_sensor_by_id_def py_index_def py_split_no_sep)

theorem get_value_no_dot_witness:
  "CHR ''.'' \<notin> set ''parameters'' \<and> get_value example_lux ''parameters'' = Inl IndexError"
proof -
  have h: "CHR ''.'' \<notin> set ''parameters''" by simp
  show ?thesis using h get_value_no_dot[OF h, of example_lux] by simp
qed

text \<open>
  C4, as the claim states it, fails at an identifier without a dot: the result is
  neither a value nor \<^verbatim>\<open>None\<close>, the call raises.
\<close>

theorem get_value_undotted_counterexample:
  "get_value example_lux ''ID_WEB_Temperatur_TVL'' = Inl IndexError"
  by (simp add: get_value_def get_sensor_by_id_def py_index_def)

text \<open>
  C4, amended: for every identifier that contains a dot, the group tag is the text
  before the first dot and the sensor id the text between the first dot and the second
  (or the end); \<^verbatim>\<open>get_value\<close> returns what the table of that group holds for the sensor
  id, and \<^verbatim>\<open>None\<close> when the group is none of the three or the table has no such entry.
\<close>

theorem get_value_dotted:
  assumes "CHR ''.'' \<in> set group_sensor_id"
  shows "get_value lux group_sensor_id =
     (let grp = takeWhile (\<lambda>c. c \<noteq> CHR ''.'') group_sensor_id;
          sensor_id = takeWhile (\<lambda>c. c \<noteq> CHR ''.'')
                        (tl (dropWhile (\<lambda>c. c \<noteq> CHR ''.'') group_sensor_id))
      in Inr (if grp = ''parameters'' then value_at (parameters lux) sensor_id
              else if grp = ''calculations'' then value_at (calculations lux) sensor_id
              else if grp = ''visibilities'' then value_at (visibilities lux) sensor_id
              else None))"
proof -
  let ?r = "tl (dropWhile (\<lambda>c. c \<noteq> CHR ''.'') group_sensor_id)"
  have 1: "py_split CHR ''.'' group_sensor_id =
             takeWhile (\<lambda>c. c \<noteq> CHR ''.'') group_sensor_id # py_split CHR ''.'' ?r"
    by (rule py_split_dotted[OF assms])
  have 3: "py_index (py_split CHR ''.'' group_sensor_id) 0 =
             Inr (takeWhile (\<lambda>c. c \<noteq> CHR ''.'') group_sensor_id)"
    by (simp add: 1 py_index_def)
  have 4: "py_index (py_split CHR ''.'' group_sensor_id) (Suc 0) =
             Inr (takeWhile (\<lambda>c. c \<noteq> CHR ''.'') ?r)"
    by (simp add: 1 py_index_def py_split_0 py_split_not_Nil)
  show ?thesis
    by (simp add: get_value_def get_sensor_by_id_def 3 4 get_sensor_def value_at_def
        CONF_PARAMETERS_def CONF_CALCULATIONS_def CONF_VISIBILITIES_def Let_def
        split: option.splits)
qed

theorem get_value_dotted_witness:
  "CHR ''.'' \<in> set ''calculations.ID_WEB_Temperatur_TVL''
   \<and> get_value example_lux ''calculations.ID_WEB_Temperatur_TVL'' = Inr (Some 35)
   \<and> get_value example_lux ''calculations.ID_WEB_Temperatur_TRL'' = Inr None
   \<and> get_value example_lux ''sensors.ID_WEB_Temperatur_TVL'' = Inr None"
proof -
  have h: "CHR ''.'' \<in> set ''calculations.ID_WEB_Temperatur_TVL''" by simp
  have h2: "CHR ''.'' \<in> set ''calculations.ID_WEB_Temperatur_TRL''" by simp
  have h3: "CHR ''.'' \<in> set ''sensors.ID_WEB_Temperatur_TVL''" by simp
  show ?thesis
    using h get_value_dotted[OF h, of example_lux] get_value_dotted[OF h2, of example_lux]
      get_value_dotted[OF h3, of example_lux]
    by (simp add: example_lux_def value_at_def)
qed

lemmas prims = goto_def got_lock_def enter_def leave_def lock_acquire_def lock_release_def
  finally_release_def

lemmas run_defs = step_def spawn_def prims acquire_error_def TIMEOUT_MAX_def

text \<open>
  C6: \<^verbatim>\<open>get_value\<close> can run whatever the state of the lock is, and it leaves the lock,
  the log of the calls on the lock, the handle, the log of the calls on the handle, the
  warnings, the fields of the wrapper and every other activation as they were: the
  state after it is the state before it, but for the result the call returns, which it
  computes from the tables the handle holds.
\<close>

theorem get_value_frame:
  assumes "t < length (threads s)"
    and "call (threads s ! t) = GetValue group_sensor_id"
    and "pc (threads s ! t) = Entry"
  shows "\<exists>s'. step (Run t) s = Some s'
           \<and> s' = s\<lparr>threads := (threads s)[t := (threads s ! t)
                        \<lparr>pc := Done (get_value (luxtronik s) group_sensor_id)\<rparr>]\<rparr>
           \<and> lock s' = lock s \<and> lock_log s' = lock_log s
           \<and> luxtronik s' = luxtronik s \<and> handle_calls s' = handle_calls s
           \<and> warnings s' = warnings s
           \<and> host s' = host s \<and> port s' = port s \<and> lock_timeout_sec s' = lock_timeout_sec s"
  using assms by (simp add: step_def goto_def)

theorem get_value_frame_witness:
  "(case run [Call Update, Run 1, Call (GetValue ''parameters.ID_Einst_WK_akt'')] example_device of
      None \<Rightarrow> False
    | Some s \<Rightarrow>
        lock s = Some 1 \<and> call (threads s ! 2) = GetValue ''parameters.ID_Einst_WK_akt''
        \<and> (case step (Run 2) s of
             None \<Rightarrow> False
           | Some s' \<Rightarrow> lock s' = Some 1 \<and> lock_log s' = lock_log s
                \<and> luxtronik s' = luxtronik s
                \<and> pc (threads s' ! 2) = Done (Inr (Some 21))))"
proof -
  define s where
    "s = the (run [Call Update, Run 1, Call (GetValue ''parameters.ID_Einst_WK_akt'')]
                example_device)"
  have r: "run [Call Update, Run 1, Call (GetValue ''parameters.ID_Einst_WK_akt'')]
             example_device = Some s"
    unfolding s_def by (simp add: run_defs example_device_def)
  have a: "2 < length (threads s)"
    and b: "call (threads s ! 2) = GetValue ''parameters.ID_Einst_WK_akt''"
    and c: "pc (threads s ! 2) = Entry"
    and d: "lock s = Some 1"
    and e: "luxtronik s = example_lux"
    unfolding s_def by (simp_all add: run_defs example_device_def)
  have v: "get_value example_lux ''parameters.ID_Einst_WK_akt'' = Inr (Some 21)"
    by (simp add: get_value_def get_sensor_by_id_def py_index_def get_sensor_def
        CONF_PARAMETERS_def CONF_CALCULATIONS_def CONF_VISIBILITIES_def example_lux_def)
  from get_value_frame[OF a b c] obtain s' where st: "step (Run 2) s = Some s'"
    and f: "lock s' = lock s" "lock_log s' = lock_log s" "luxtronik s' = luxtronik s"
    and g: "s' = s\<lparr>threads := (threads s)[2 := (threads s ! 2)
               \<lparr>pc := Done (get_value (luxtronik s) ''parameters.ID_Einst_WK_akt'')\<rparr>]\<rparr>"
    by blast
  have h: "pc (threads s' ! 2) = Done (Inr (Some 21))"
    using a by (simp add: g e v)
  show ?thesis
    by (simp only: r st option.case b d f h simp_thms)
qed

subsection \<open>Two runs of the example device\<close>

lemma example_device_init:
  "LuxtronikDevice_init (\<lambda>h p sf. example_lux) ''heatpump'' 8889 True 30 example_lux None
     = Inr example_device"
  by (simp add: LuxtronikDevice_init_def run_defs example_device_def)

text \<open>The four steps of the constructor's \<^verbatim>\<open>update\<close> are always possible.\<close>

lemma init_steps_possible:
  "run ([Call Update, Run 0]
         @ (case acquire_error tmo of None \<Rightarrow> [Lib 0 x e] | Some err \<Rightarrow> [])
         @ [Run 0])
     \<lparr>lock = None, host = h, port = p, lock_timeout_sec = tmo, luxtronik = x0,
      handle_calls = [], handle_returns = [], lock_log = [], warnings = [],
      threads = []\<rparr> \<noteq> None"
  by (cases e) (simp_all add: step_def spawn_def goto_def got_lock_def enter_def leave_def
      lock_acquire_def lock_release_def finally_release_def split: option.splits)

text \<open>
  C1 fails on the code. An update holds the lock and its read is in flight
  (activation 1). A write times out on the lock, logs its warning, and its
  \<^verbatim>\<open>finally\<close> block releases the lock the update holds (activation 2). A second write
  now acquires the lock and is inside \<^verbatim>\<open>parameters.set\<close> while the read of the update
  is still in flight (activation 3).
\<close>

theorem overlapping_operations:
  "map_option (\<lambda>s. (pc (threads s ! 1), pc (threads s ! 2), pc (threads s ! 3), lock s,
                     in_flight (threads s ! 1) \<and> in_flight (threads s ! 3)))
     (run [Call Update, Call (Write ''ID_Einst_WK_akt'' (Some 22) False),
           Call (Write ''ID_Einst_WK_akt'' (Some 23) False),
           Run 1, Run 2, Run 2, Run 2, Run 3] example_device)
   = Some (InRead, Done (Inr None), InSet, Some 3, True)"
  by (simp add: run_defs example_device_def in_flight_def)

text \<open>
  C2 fails on the code. A write times out while an update holds the lock and logs its
  warning; the update finishes and releases the lock; the \<^verbatim>\<open>finally\<close> block of the write
  then releases an unlocked lock, and the RuntimeError of \<^verbatim>\<open>release\<close> leaves \<^verbatim>\<open>write\<close>.
\<close>

theorem timeout_propagates_error:
  "map_option (\<lambda>s. (pc (threads s ! 2), calls_of 2 s, warnings_of 2 s, lock_calls_of 2 s))
     (run [Call Update, Call (Write ''ID_Einst_WK_akt'' (Some 22) False),
           Run 1, Run 2, Run 2, Lib 1 example_lux None, Run 1, Run 2] example_device)
   = Some (Done (Inl RuntimeError), [],
           [WriteLockTimeout ''ID_Einst_WK_akt'' (Some 22) 30],
           [AcquireCall 30 False, ReleaseCall True])"
  by (simp add: run_defs example_device_def calls_of_def warnings_of_def lock_calls_of_def)

subsection \<open>The invariant\<close>

lemma filter_fst_none: "\<forall>x \<in> set xs. fst x < (n::nat) \<Longrightarrow> filter (\<lambda>x. fst x = n) xs = []"
  by (induction xs) auto

lemma lock_ok_mono: "lock_ok m th \<Longrightarrow> (m' \<longrightarrow> m) \<Longrightarrow> lock_ok m' th"
  by (auto simp: lock_ok_def)

lemma thread_inv_frame:
  assumes "thread_inv tmo s t"
    and "threads s' ! t = threads s ! t"
    and "calls_of t s' = calls_of t s"
    and "returns_of t s' = returns_of t s"
    and "lock_calls_of t s' = lock_calls_of t s"
    and "warnings_of t s' = warnings_of t s"
    and "lock s' = Some t \<longrightarrow> lock s = Some t"
  shows "thread_inv tmo s' t"
  using assms lock_ok_mono[of "lock s = Some t" "threads s ! t" "lock s' = Some t"]
  by (simp add: thread_inv_def)

lemmas log_defs = calls_of_def returns_of_def lock_calls_of_def warnings_of_def

lemma inv_spawn:
  assumes "device_inv tmo s"
  shows "device_inv tmo (spawn c s)"
proof -
  let ?n = "length (threads s)"
  let ?s = "spawn c s"
  have len: "length (threads ?s) = Suc ?n" by (simp add: spawn_def)
  have old: "thread_inv tmo ?s t" if "t < ?n" for t
  proof (rule thread_inv_frame)
    show "thread_inv tmo s t" using assms that by (simp add: device_inv_def)
  qed (use that in \<open>simp_all add: spawn_def nth_append log_defs\<close>)
  have hc: "calls_of ?n ?s = []"
    using assms by (simp add: device_inv_def spawn_def calls_of_def filter_fst_none)
  have hr: "returns_of ?n ?s = []"
    using assms by (simp add: device_inv_def spawn_def returns_of_def filter_fst_none)
  have ll: "lock_calls_of ?n ?s = []"
    using assms by (simp add: device_inv_def spawn_def lock_calls_of_def filter_fst_none)
  have ww: "warnings_of ?n ?s = []"
    using assms by (simp add: device_inv_def spawn_def warnings_of_def filter_fst_none)
  have lk: "lock ?s \<noteq> Some ?n"
    using assms by (auto simp: device_inv_def spawn_def)
  have th: "threads ?s ! ?n = \<lparr>call = c, pc = Entry, acquired = False\<rparr>"
    by (simp add: spawn_def)
  have new: "thread_inv tmo ?s ?n"
    using lk by (simp add: thread_inv_def hc hr ll ww th lock_ok_def lock_log_ok_def calls_ok_def
        warns_ok_def in_flight_def split: call.splits)
  have all: "\<forall>t < length (threads ?s). thread_inv tmo ?s t"
    using old new by (auto simp: len less_Suc_eq)
  have glob: "lock_timeout_sec ?s = tmo" "acquire_error tmo = None"
    "\<forall>u. lock ?s = Some u \<longrightarrow> u < length (threads ?s)"
    "\<forall>x \<in> set (handle_calls ?s). fst x < length (threads ?s)"
    "\<forall>x \<in> set (handle_returns ?s). fst x < length (threads ?s)"
    "\<forall>x \<in> set (lock_log ?s). fst x < length (threads ?s)"
    "\<forall>x \<in> set (warnings ?s). fst x < length (threads ?s)"
    using assms by (auto simp: device_inv_def spawn_def less_Suc_eq)
  show ?thesis using glob all unfolding device_inv_def by blast
qed

lemma Run_frame:
  assumes "step (Run u) s = Some s'"
  shows "u < length (threads s)"
    and "length (threads s') = length (threads s)"
    and "lock_timeout_sec s' = lock_timeout_sec s"
    and "t \<noteq> u \<Longrightarrow> threads s' ! t = threads s ! t"
    and "t \<noteq> u \<Longrightarrow> calls_of t s' = calls_of t s"
    and "t \<noteq> u \<Longrightarrow> lock_calls_of t s' = lock_calls_of t s"
    and "t \<noteq> u \<Longrightarrow> warnings_of t s' = warnings_of t s"
    and "lock s' = None \<or> lock s' = lock s \<or> lock s' = Some u"
    and "set (handle_calls s') \<subseteq> set (handle_calls s) \<union> {u} \<times> UNIV"
    and "set (lock_log s') \<subseteq> set (lock_log s) \<union> {u} \<times> UNIV"
    and "set (warnings s') \<subseteq> set (warnings s) \<union> {u} \<times> UNIV"
    and "handle_returns s' = handle_returns s"
proof -
  show u: "u < length (threads s)"
    using assms by (simp add: step_def split: if_splits)
  have *: "length (threads s') = length (threads s) \<and> lock_timeout_sec s' = lock_timeout_sec s
    \<and> (t \<noteq> u \<longrightarrow> threads s' ! t = threads s ! t)
    \<and> (t \<noteq> u \<longrightarrow> calls_of t s' = calls_of t s)
    \<and> (t \<noteq> u \<longrightarrow> lock_calls_of t s' = lock_calls_of t s)
    \<and> (t \<noteq> u \<longrightarrow> warnings_of t s' = warnings_of t s)
    \<and> (lock s' = None \<or> lock s' = lock s \<or> lock s' = Some u)
    \<and> set (handle_calls s') \<subseteq> set (handle_calls s) \<union> {u} \<times> UNIV
    \<and> set (lock_log s') \<subseteq> set (lock_log s) \<union> {u} \<times> UNIV
    \<and> set (warnings s') \<subseteq> set (warnings s) \<union> {u} \<times> UNIV
    \<and> handle_returns s' = handle_returns s"
    using assms u
    by (cases "call (threads s ! u)"; cases "pc (threads s ! u)")
       (auto simp: step_def prims log_defs split: if_splits option.splits)
  from * show "length (threads s') = length (threads s)" by blast
  from * show "lock_timeout_sec s' = lock_timeout_sec s" by blast
  from * show "t \<noteq> u \<Longrightarrow> threads s' ! t = threads s ! t" by blast
  from * show "t \<noteq> u \<Longrightarrow> calls_of t s' = calls_of t s" by blast
  from * show "t \<noteq> u \<Longrightarrow> lock_calls_of t s' = lock_calls_of t s" by blast
  from * show "t \<noteq> u \<Longrightarrow> warnings_of t s' = warnings_of t s" by blast
  from * show "lock s' = None \<or> lock s' = lock s \<or> lock s' = Some u" by blast
  from * show "set (handle_calls s') \<subseteq> set (handle_calls s) \<union> {u} \<times> UNIV" by blast
  from * show "set (lock_log s') \<subseteq> set (lock_log s) \<union> {u} \<times> UNIV" by blast
  from * show "set (warnings s') \<subseteq> set (warnings s) \<union> {u} \<times> UNIV" by blast
  from * show "handle_returns s' = handle_returns s" by blast
qed

lemma Lib_frame:
  assumes "step (Lib u x e) s = Some s'"
  shows "u < length (threads s)"
    and "length (threads s') = length (threads s)"
    and "lock_timeout_sec s' = lock_timeout_sec s"
    and "t \<noteq> u \<Longrightarrow> threads s' ! t = threads s ! t"
    and "t \<noteq> u \<Longrightarrow> calls_of t s' = calls_of t s"
    and "t \<noteq> u \<Longrightarrow> lock_calls_of t s' = lock_calls_of t s"
    and "t \<noteq> u \<Longrightarrow> warnings_of t s' = warnings_of t s"
    and "lock s' = lock s"
    and "set (handle_calls s') \<subseteq> set (handle_calls s) \<union> {u} \<times> UNIV"
    and "lock_log s' = lock_log s"
    and "warnings s' = warnings s"
    and "handle_returns s' = handle_returns s @ [(u, e)]"
proof -
  show u: "u < length (threads s)"
    using assms by (simp add: step_def split: if_splits)
  have *: "length (threads s') = length (threads s) \<and> lock_timeout_sec s' = lock_timeout_sec s
    \<and> (t \<noteq> u \<longrightarrow> threads s' ! t = threads s ! t)
    \<and> (t \<noteq> u \<longrightarrow> calls_of t s' = calls_of t s)
    \<and> (t \<noteq> u \<longrightarrow> lock_calls_of t s' = lock_calls_of t s)
    \<and> (t \<noteq> u \<longrightarrow> warnings_of t s' = warnings_of t s)
    \<and> lock s' = lock s
    \<and> set (handle_calls s') \<subseteq> set (handle_calls s) \<union> {u} \<times> UNIV
    \<and> lock_log s' = lock_log s \<and> warnings s' = warnings s
    \<and> handle_returns s' = handle_returns s @ [(u, e)]"
    using assms u
    by (cases "call (threads s ! u)"; cases "pc (threads s ! u)"; cases e)
       (auto simp: step_def prims log_defs split: if_splits)
  from * show "length (threads s') = length (threads s)" by blast
  from * show "lock_timeout_sec s' = lock_timeout_sec s" by blast
  from * show "t \<noteq> u \<Longrightarrow> threads s' ! t = threads s ! t" by blast
  from * show "t \<noteq> u \<Longrightarrow> calls_of t s' = calls_of t s" by blast
  from * show "t \<noteq> u \<Longrightarrow> lock_calls_of t s' = lock_calls_of t s" by blast
  from * show "t \<noteq> u \<Longrightarrow> warnings_of t s' = warnings_of t s" by blast
  from * show "lock s' = lock s" by blast
  from * show "set (handle_calls s') \<subseteq> set (handle_calls s) \<union> {u} \<times> UNIV" by blast
  from * show "lock_log s' = lock_log s" by blast
  from * show "warnings s' = warnings s" by blast
  from * show "handle_returns s' = handle_returns s @ [(u, e)]" by blast
qed

lemma Run_lock_ok:
  assumes "step (Run u) s = Some s'" and "acquire_error (lock_timeout_sec s) = None"
    and "lock_ok (lock s = Some u) (threads s ! u)"
  shows "lock_ok (lock s' = Some u) (threads s' ! u)"
proof -
  have u: "u < length (threads s)"
    using assms(1) by (rule Run_frame(1))
  show ?thesis
    using assms u
    by (cases "call (threads s ! u)"; cases "pc (threads s ! u)")
       (auto simp: step_def prims lock_ok_def in_flight_def split: if_splits)
qed

lemma Run_lock_log_ok:
  assumes "step (Run u) s = Some s'" and "acquire_error (lock_timeout_sec s) = None"
    and "lock_ok (lock s = Some u) (threads s ! u)"
    and "lock_log_ok (lock_timeout_sec s) (threads s ! u) (lock_calls_of u s)"
  shows "lock_log_ok (lock_timeout_sec s) (threads s' ! u) (lock_calls_of u s')"
proof -
  have u: "u < length (threads s)"
    using assms(1) by (rule Run_frame(1))
  show ?thesis
    using assms u
    by (cases "call (threads s ! u)"; cases "pc (threads s ! u)")
       (auto simp: step_def prims lock_ok_def lock_log_ok_def lock_calls_of_def in_flight_def
          split: if_splits option.splits)
qed

lemma Run_calls_ok:
  assumes "step (Run u) s = Some s'" and "acquire_error (lock_timeout_sec s) = None"
    and "lock_ok (lock s = Some u) (threads s ! u)"
    and "calls_ok (threads s ! u) (calls_of u s) (returns_of u s)"
  shows "calls_ok (threads s' ! u) (calls_of u s') (returns_of u s')"
proof -
  have u: "u < length (threads s)"
    using assms(1) by (rule Run_frame(1))
  show ?thesis
    using assms u
    by (cases "call (threads s ! u)"; cases "pc (threads s ! u)")
       (auto simp: step_def prims lock_ok_def calls_ok_def calls_of_def returns_of_def
          in_flight_def split: if_splits option.splits)
qed

lemma Run_warns_ok:
  assumes "step (Run u) s = Some s'" and "acquire_error (lock_timeout_sec s) = None"
    and "lock_ok (lock s = Some u) (threads s ! u)"
    and "warns_ok (lock_timeout_sec s) (threads s ! u) (warnings_of u s)"
  shows "warns_ok (lock_timeout_sec s) (threads s' ! u) (warnings_of u s')"
proof -
  have u: "u < length (threads s)"
    using assms(1) by (rule Run_frame(1))
  show ?thesis
    using assms u
    by (cases "call (threads s ! u)"; cases "pc (threads s ! u)")
       (auto simp: step_def prims lock_ok_def warns_ok_def warnings_of_def in_flight_def
          split: if_splits option.splits)
qed

lemma Run_self:
  assumes "step (Run u) s = Some s'" and "thread_inv tmo s u" and "lock_timeout_sec s = tmo"
    and "acquire_error tmo = None"
  shows "thread_inv tmo s' u"
  using assms Run_lock_ok[OF assms(1)] Run_lock_log_ok[OF assms(1)] Run_calls_ok[OF assms(1)]
    Run_warns_ok[OF assms(1)]
  by (simp add: thread_inv_def)


lemma Lib_lock_ok:
  assumes "step (Lib u x e) s = Some s'" and "lock_ok (lock s = Some u) (threads s ! u)"
  shows "lock_ok (lock s' = Some u) (threads s' ! u)"
proof -
  have u: "u < length (threads s)"
    using assms(1) by (rule Lib_frame(1))
  show ?thesis
    using assms u
    by (cases "call (threads s ! u)"; cases "pc (threads s ! u)"; cases e)
       (auto simp: step_def prims lock_ok_def in_flight_def split: if_splits)
qed

lemma Lib_lock_log_ok:
  assumes "step (Lib u x e) s = Some s'"
    and "lock_log_ok tmo (threads s ! u) (lock_calls_of u s)"
  shows "lock_log_ok tmo (threads s' ! u) (lock_calls_of u s')"
proof -
  have u: "u < length (threads s)"
    using assms(1) by (rule Lib_frame(1))
  show ?thesis
    using assms u
    by (cases "call (threads s ! u)"; cases "pc (threads s ! u)"; cases e)
       (auto simp: step_def prims lock_log_ok_def lock_calls_of_def split: if_splits)
qed

lemma Lib_calls_ok:
  assumes "step (Lib u x e) s = Some s'" and "lock_ok (lock s = Some u) (threads s ! u)"
    and "calls_ok (threads s ! u) (calls_of u s) (returns_of u s)"
  shows "calls_ok (threads s' ! u) (calls_of u s') (returns_of u s')"
proof -
  have u: "u < length (threads s)"
    using assms(1) by (rule Lib_frame(1))
  show ?thesis
    using assms u
    by (cases "call (threads s ! u)"; cases "pc (threads s ! u)"; cases e)
       (auto simp: step_def prims lock_ok_def calls_ok_def calls_of_def returns_of_def
          in_flight_def write_calls_def raised_end_def normal_end_def split: if_splits)
qed

lemma Lib_warns_ok:
  assumes "step (Lib u x e) s = Some s'" and "lock_ok (lock s = Some u) (threads s ! u)"
    and "warns_ok tmo (threads s ! u) (warnings_of u s)"
  shows "warns_ok tmo (threads s' ! u) (warnings_of u s')"
proof -
  have u: "u < length (threads s)"
    using assms(1) by (rule Lib_frame(1))
  show ?thesis
    using assms u
    by (cases "call (threads s ! u)"; cases "pc (threads s ! u)"; cases e)
       (auto simp: step_def prims lock_ok_def warns_ok_def warnings_of_def in_flight_def
          split: if_splits)
qed

lemma Lib_self:
  assumes "step (Lib u x e) s = Some s'" and "thread_inv tmo s u"
  shows "thread_inv tmo s' u"
  using assms Lib_lock_ok[OF assms(1)] Lib_lock_log_ok[OF assms(1)] Lib_calls_ok[OF assms(1)]
    Lib_warns_ok[OF assms(1)]
  by (simp add: thread_inv_def)

lemma returns_other:
  "t \<noteq> u \<Longrightarrow> returns_of t (s\<lparr>handle_returns := handle_returns s @ [(u, e)]\<rparr>) = returns_of t s"
  by (simp add: returns_of_def)

lemma inv_Run:
  assumes "step (Run u) s = Some s'" and "device_inv tmo s"
  shows "device_inv tmo s'"
proof -
  note fr = Run_frame[OF assms(1)]
  have tm: "lock_timeout_sec s = tmo" and ok: "acquire_error tmo = None"
    using assms(2) by (simp_all add: device_inv_def)
  have thr: "thread_inv tmo s' t" if "t < length (threads s)" for t
  proof (cases "t = u")
    case True
    then show ?thesis
      using Run_self[OF assms(1) _ tm ok] assms(2) that by (simp add: device_inv_def)
  next
    case False
    have "thread_inv tmo s t" using assms(2) that by (simp add: device_inv_def)
    moreover have "returns_of t s' = returns_of t s"
      using fr(12) by (simp add: returns_of_def)
    ultimately show ?thesis
      using fr(4,5,6,7)[OF False] fr(8) False by (intro thread_inv_frame[of tmo s t s']) auto
  qed
  have lk: "\<forall>v. lock s' = Some v \<longrightarrow> v < length (threads s')"
    using fr(1,2,8) assms(2) by (auto simp: device_inv_def)
  have hc: "\<forall>x \<in> set (handle_calls s'). fst x < length (threads s')"
    using fr(1,2,9) assms(2) by (auto simp: device_inv_def)
  have hr: "\<forall>x \<in> set (handle_returns s'). fst x < length (threads s')"
    using fr(2,12) assms(2) by (auto simp: device_inv_def)
  have ll: "\<forall>x \<in> set (lock_log s'). fst x < length (threads s')"
    using fr(1,2,10) assms(2) by (auto simp: device_inv_def)
  have ww: "\<forall>x \<in> set (warnings s'). fst x < length (threads s')"
    using fr(1,2,11) assms(2) by (auto simp: device_inv_def)
  show ?thesis
    unfolding device_inv_def using tm ok fr(2,3) thr lk hc hr ll ww by simp
qed

lemma inv_Lib:
  assumes "step (Lib u x e) s = Some s'" and "device_inv tmo s"
  shows "device_inv tmo s'"
proof -
  note fr = Lib_frame[OF assms(1)]
  have tm: "lock_timeout_sec s = tmo" and ok: "acquire_error tmo = None"
    using assms(2) by (simp_all add: device_inv_def)
  have thr: "thread_inv tmo s' t" if "t < length (threads s)" for t
  proof (cases "t = u")
    case True
    then show ?thesis
      using Lib_self[OF assms(1)] assms(2) that by (simp add: device_inv_def)
  next
    case False
    have "thread_inv tmo s t" using assms(2) that by (simp add: device_inv_def)
    moreover have "returns_of t s' = returns_of t s"
      using fr(12) False by (simp add: returns_of_def)
    ultimately show ?thesis
      using fr(4,5,6,7)[OF False] fr(8) by (intro thread_inv_frame[of tmo s t s']) auto
  qed
  have lk: "\<forall>v. lock s' = Some v \<longrightarrow> v < length (threads s')"
    using fr(1,2,8) assms(2) by (auto simp: device_inv_def)
  have hc: "\<forall>x \<in> set (handle_calls s'). fst x < length (threads s')"
    using fr(1,2,9) assms(2) by (auto simp: device_inv_def)
  have hr: "\<forall>x \<in> set (handle_returns s'). fst x < length (threads s')"
    using fr(1,2,12) assms(2) by (auto simp: device_inv_def)
  have ll: "\<forall>x \<in> set (lock_log s'). fst x < length (threads s')"
    using fr(1,2,10) assms(2) by (auto simp: device_inv_def)
  have ww: "\<forall>x \<in> set (warnings s'). fst x < length (threads s')"
    using fr(1,2,11) assms(2) by (auto simp: device_inv_def)
  show ?thesis
    unfolding device_inv_def using tm ok fr(2,3) thr lk hc hr ll ww by simp
qed

lemma inv_step:
  assumes "step a s = Some s'" and "device_inv tmo s"
  shows "device_inv tmo s'"
proof (cases a)
  case (Call c)
  then show ?thesis using assms inv_spawn[of tmo s c] by (simp add: step_def)
next
  case (Run u)
  then show ?thesis using assms inv_Run by blast
next
  case (Lib u x e)
  then show ?thesis using assms inv_Lib by blast
qed

lemma inv_run:
  assumes "run sch s = Some s'" and "device_inv tmo s"
  shows "device_inv tmo s'"
  using assms
proof (induction sch arbitrary: s)
  case Nil
  then show ?case by simp
next
  case (Cons a sch)
  then show ?case by (auto split: option.splits dest: inv_step)
qed

lemma inv_empty:
  "acquire_error tmo = None \<Longrightarrow>
   device_inv tmo \<lparr>lock = None, host = h, port = p, lock_timeout_sec = tmo, luxtronik = x,
            handle_calls = [], handle_returns = [], lock_log = [], warnings = [],
            threads = []\<rparr>"
  by (simp add: device_inv_def)

text \<open>
  No device is constructed with a timeout that \<^verbatim>\<open>acquire\<close> refuses: the \<^verbatim>\<open>update\<close> of
  the constructor raises.
\<close>

lemma init_refused:
  assumes "acquire_error tmo = Some err"
  shows "LuxtronikDevice_init Lux_new h p sf tmo x e = Inl RuntimeError"
  using assms
  by (simp add: LuxtronikDevice_init_def step_def spawn_def prims)

lemma init_run:
  assumes "LuxtronikDevice_init Lux_new h p sf tmo x e = Inr s0"
  shows "acquire_error tmo = None"
    and "run [Call Update, Run 0, Lib 0 x e, Run 0]
           \<lparr>lock = None, host = h, port = p, lock_timeout_sec = tmo, luxtronik = Lux_new h p sf,
            handle_calls = [], handle_returns = [], lock_log = [], warnings = [],
            threads = []\<rparr> = Some s0"
proof -
  show ok: "acquire_error tmo = None"
  proof (cases "acquire_error tmo")
    case (Some err)
    then show ?thesis using init_refused[OF Some, of Lux_new h p sf x e] assms by simp
  qed simp
  let ?self = "\<lparr>lock = None, host = h, port = p, lock_timeout_sec = tmo,
            luxtronik = Lux_new h p sf,
            handle_calls = [], handle_returns = [], lock_log = [], warnings = [],
            threads = []\<rparr>"
  show "run [Call Update, Run 0, Lib 0 x e, Run 0] ?self = Some s0"
  proof (cases "run [Call Update, Run 0, Lib 0 x e, Run 0] ?self")
    case None
    then show ?thesis
      using assms ok unfolding LuxtronikDevice_init_def Let_def by (simp del: run.simps)
  next
    case (Some s)
    then have "s = s0"
      using assms ok unfolding LuxtronikDevice_init_def Let_def
      by (simp del: run.simps split: pc.splits sum.splits)
    then show ?thesis using Some by simp
  qed
qed

lemma inv_init:
  assumes "LuxtronikDevice_init Lux_new h p sf tmo x e = Inr s0"
  shows "device_inv tmo s0"
  using init_run(2)[OF assms] inv_empty[OF init_run(1)[OF assms]] by (rule inv_run)

lemma reachable_inv:
  assumes "LuxtronikDevice_init Lux_new h p sf tmo x e = Inr s0" and "run sch s0 = Some s"
    and "t < length (threads s)"
  shows "lock_timeout_sec s = tmo"
    and "lock_ok (lock s = Some t) (threads s ! t)"
    and "lock_log_ok tmo (threads s ! t) (lock_calls_of t s)"
    and "calls_ok (threads s ! t) (calls_of t s) (returns_of t s)"
    and "warns_ok tmo (threads s ! t) (warnings_of t s)"
    and "acquire_error tmo = None"
  using inv_run[OF assms(2) inv_init[OF assms(1)]] assms(3)
  by (simp_all add: device_inv_def thread_inv_def)

subsection \<open>The statements of an activation, one by one\<close>

lemma entry_step_write:
  assumes "t < length (threads s)"
    and "call (threads s ! t) = Write parameter val upd"
    and "pc (threads s ! t) = Entry"
    and "acquire_error (lock_timeout_sec s) = None"
    and "lock s = None \<or> lock_timeout_sec s \<noteq> - 1"
  shows "\<exists>s'. step (Run t) s = Some s'
           \<and> pc (threads s' ! t) = (if lock s = None then InSet else Warn)
           \<and> acquired (threads s' ! t) = (lock s = None \<or> acquired (threads s ! t))
           \<and> lock s' = (if lock s = None then Some t else lock s)
           \<and> lock_calls_of t s' = lock_calls_of t s @ [AcquireCall (lock_timeout_sec s) (lock s = None)]
           \<and> calls_of t s' = calls_of t s @ (if lock s = None then [ParametersSet parameter val] else [])"
  using assms by (auto simp: step_def prims log_defs)

lemma entry_step_update:
  assumes "t < length (threads s)"
    and "call (threads s ! t) = Update"
    and "pc (threads s ! t) = Entry"
    and "acquire_error (lock_timeout_sec s) = None"
    and "lock s = None \<or> lock_timeout_sec s \<noteq> - 1"
  shows "\<exists>s'. step (Run t) s = Some s'
           \<and> pc (threads s' ! t) = (if lock s = None then InRead else Warn)
           \<and> acquired (threads s' ! t) = (lock s = None \<or> acquired (threads s ! t))
           \<and> lock s' = (if lock s = None then Some t else lock s)
           \<and> lock_calls_of t s' = lock_calls_of t s @ [AcquireCall (lock_timeout_sec s) (lock s = None)]
           \<and> calls_of t s' = calls_of t s @ (if lock s = None then [HandleRead] else [])"
  using assms by (auto simp: step_def prims log_defs)

lemma warn_step:
  assumes "t < length (threads s)"
    and "call (threads s ! t) = Update \<or> call (threads s ! t) = Write parameter val upd"
    and "pc (threads s ! t) = Warn"
  shows "\<exists>s'. step (Run t) s = Some s' \<and> pc (threads s' ! t) = Release None
           \<and> acquired (threads s' ! t) = acquired (threads s ! t)
           \<and> lock s' = lock s \<and> lock_calls_of t s' = lock_calls_of t s
           \<and> calls_of t s' = calls_of t s"
  using assms by (auto simp: step_def prims log_defs)

lemma release_step:
  assumes "t < length (threads s)"
    and "call (threads s ! t) = Update \<or> call (threads s ! t) = Write parameter val upd"
    and "pc (threads s ! t) = Release pending"
  shows "step (Run t) s = Some (finally_release t pending s)"
  using assms by (auto simp: step_def)

lemma finally_release_effect:
  assumes "t < length (threads s)"
  shows "lock (finally_release t pending s) = None"
    and "lock_calls_of t (finally_release t pending s)
           = lock_calls_of t s @ [ReleaseCall (lock s = None)]"
    and "pc (threads (finally_release t pending s) ! t)
           = Done (if lock s = None then Inl RuntimeError
                   else (case pending of None \<Rightarrow> Inr None | Some e \<Rightarrow> Inl e))"
    and "calls_of t (finally_release t pending s) = calls_of t s"
  using assms by (auto simp: prims log_defs)

lemma write_lib_step:
  assumes "t < length (threads s)"
    and "call (threads s ! t) = Write parameter val upd"
    and "in_flight (threads s ! t)"
  shows "\<exists>s'. step (Lib t x e) s = Some s'
           \<and> pc (threads s' ! t) =
               (case e of
                  Some ex \<Rightarrow> Release (Some ex)
                | None \<Rightarrow>
                    (if pc (threads s ! t) = InSet then InWrite
                     else if pc (threads s ! t) = InWrite \<and> upd then InRead
                     else Release None))
           \<and> lock s' = lock s \<and> lock_calls_of t s' = lock_calls_of t s"
  using assms by (cases e) (auto simp: step_def prims log_defs in_flight_def)

lemma write_step_remaining:
  assumes "step a s = Some s'"
    and "a = Run t \<or> (\<exists>y ex. a = Lib t y ex)"
    and "call (threads s ! t) = Write parameter val upd"
  shows "remaining (pc (threads s' ! t)) < remaining (pc (threads s ! t))"
proof -
  from assms(2) show ?thesis
  proof
    assume a: "a = Run t"
    then have t: "t < length (threads s)"
      using assms(1) Run_frame(1) by blast
    show ?thesis
      using assms(1,3) a t
      by (cases "pc (threads s ! t)")
         (auto simp: step_def prims split: option.splits sum.splits bool.splits if_splits)
  next
    assume "\<exists>y ex. a = Lib t y ex"
    then obtain y ex where a: "a = Lib t y ex" by blast
    then have t: "t < length (threads s)"
      using assms(1) Lib_frame(1) by blast
    show ?thesis
      using assms(1,3) a t
      by (cases "pc (threads s ! t)"; cases ex) (auto simp: step_def prims split: if_splits)
  qed
qed

subsection \<open>\<^verbatim>\<open>write\<close> and \<^verbatim>\<open>update\<close> in every interleaving\<close>

text \<open>
  C3: in every state that the device reaches after its construction, under every
  interleaving and with every outcome of the calls on the handle, a \<^verbatim>\<open>write\<close> goes to
  its \<^verbatim>\<open>finally\<close> block by every way out and releases there. From its first statement
  it goes on with the lock or, timed out, to the warning (it waits only with the
  timeout -1 on a locked lock); from the warning to the \<^verbatim>\<open>finally\<close> block; from a call
  on the handle that raises, be it the parameter set, the flush or the follow-up read,
  to the \<^verbatim>\<open>finally\<close> block with the exception; from one that returns, to the next call
  or, after the last, to the \<^verbatim>\<open>finally\<close> block. In the \<^verbatim>\<open>finally\<close> block it calls
  \<^verbatim>\<open>release\<close>, which leaves the lock unlocked, and finishes. Every step of the
  activation brings it nearer to its end, so it finishes after five steps of its own at
  most. A \<^verbatim>\<open>write\<close> that has finished, whether it returned or raised, has called
  \<^verbatim>\<open>release\<close> exactly once, after its one \<^verbatim>\<open>acquire\<close>, and the lock is not locked by
  this caller.
\<close>

theorem write_releases_lock:
  assumes "LuxtronikDevice_init Lux_new h p sf tmo x e = Inr s0"
    and "run sch s0 = Some s"
    and "t < length (threads s)"
    and "call (threads s ! t) = Write parameter val upd"
  shows "(\<forall>r. pc (threads s ! t) = Done r \<longrightarrow>
            lock s \<noteq> Some t
            \<and> (\<exists>raised. lock_calls_of t s =
                  [AcquireCall tmo (acquired (threads s ! t)), ReleaseCall raised]))
    \<and> (pc (threads s ! t) = Entry \<and> (lock s = None \<or> tmo \<noteq> - 1) \<longrightarrow>
          (\<exists>s'. step (Run t) s = Some s'
             \<and> pc (threads s' ! t) = (if lock s = None then InSet else Warn)))
    \<and> (pc (threads s ! t) = Warn \<longrightarrow>
          (\<exists>s'. step (Run t) s = Some s' \<and> pc (threads s' ! t) = Release None))
    \<and> (in_flight (threads s ! t) \<longrightarrow>
          (\<forall>y ex. \<exists>s'. step (Lib t y (Some ex)) s = Some s'
                     \<and> pc (threads s' ! t) = Release (Some ex))
          \<and> (\<forall>y. \<exists>s'. step (Lib t y None) s = Some s'
                     \<and> pc (threads s' ! t) =
                         (if pc (threads s ! t) = InSet then InWrite
                          else if pc (threads s ! t) = InWrite \<and> upd then InRead
                          else Release None)))
    \<and> (\<forall>pending. pc (threads s ! t) = Release pending \<longrightarrow>
          (\<exists>s'. step (Run t) s = Some s'
             \<and> (\<exists>r. pc (threads s' ! t) = Done r)
             \<and> lock s' = None
             \<and> lock_calls_of t s' = lock_calls_of t s @ [ReleaseCall (lock s = None)]))
    \<and> (\<forall>a s'. step a s = Some s' \<and> (a = Run t \<or> (\<exists>y ex. a = Lib t y ex)) \<longrightarrow>
          remaining (pc (threads s' ! t)) < remaining (pc (threads s ! t)))"
proof -
  note iv = reachable_inv[OF assms(1,2,3)]
  have 7: "remaining (pc (threads s' ! t)) < remaining (pc (threads s ! t))"
    if "step a s = Some s' \<and> (a = Run t \<or> (\<exists>y ex. a = Lib t y ex))" for a s'
    using write_step_remaining[of a s s' t parameter val upd] that assms(4) by blast
  have 1: "lock s \<noteq> Some t
            \<and> (\<exists>raised. lock_calls_of t s =
                  [AcquireCall tmo (acquired (threads s ! t)), ReleaseCall raised])"
    if "pc (threads s ! t) = Done r" for r
  proof -
    have "lock s \<noteq> Some t"
      using iv(2) that by (auto simp: lock_ok_def in_flight_def)
    moreover have "\<exists>raised. lock_calls_of t s =
          [AcquireCall tmo (acquired (threads s ! t)), ReleaseCall raised]"
      using iv(3) assms(4) that by (auto simp: lock_log_ok_def)
    ultimately show ?thesis by blast
  qed
  have 2: "\<exists>s'. step (Run t) s = Some s'
             \<and> pc (threads s' ! t) = (if lock s = None then InSet else Warn)"
    if "pc (threads s ! t) = Entry" "lock s = None \<or> tmo \<noteq> - 1"
    using entry_step_write[OF assms(3,4) that(1)] iv(1,6) that(2) by auto
  have 3: "\<exists>s'. step (Run t) s = Some s' \<and> pc (threads s' ! t) = Release None"
    if "pc (threads s ! t) = Warn"
    using warn_step[OF assms(3) _ that] assms(4) by blast
  have 4: "\<exists>s'. step (Lib t y (Some ex)) s = Some s' \<and> pc (threads s' ! t) = Release (Some ex)"
    if "in_flight (threads s ! t)" for y ex
    using write_lib_step[OF assms(3,4) that, of y "Some ex"] by auto
  have 5: "\<exists>s'. step (Lib t y None) s = Some s'
                     \<and> pc (threads s' ! t) =
                         (if pc (threads s ! t) = InSet then InWrite
                          else if pc (threads s ! t) = InWrite \<and> upd then InRead
                          else Release None)"
    if "in_flight (threads s ! t)" for y
    using write_lib_step[OF assms(3,4) that, of y None] by auto
  have 6: "\<exists>s'. step (Run t) s = Some s'
             \<and> (\<exists>r. pc (threads s' ! t) = Done r)
             \<and> lock s' = None
             \<and> lock_calls_of t s' = lock_calls_of t s @ [ReleaseCall (lock s = None)]"
    if "pc (threads s ! t) = Release pending" for pending
    using release_step[OF assms(3) _ that] assms(4)
      finally_release_effect(1,2,3)[OF assms(3), of pending] by auto
  show ?thesis
    using 1 2 3 4 5 6 7 by blast
qed

theorem write_releases_lock_witness:
  "(case run five_writes example_device of
      None \<Rightarrow> False
    | Some s \<Rightarrow>
        map (\<lambda>t. pc (threads s ! t)) [1, 2, 3, 4, 5] =
          [Done (Inr None), Done (Inl RuntimeError), Done (Inl LibraryError),
           Done (Inl LibraryError), Done (Inl LibraryError)]
        \<and> map (\<lambda>t. acquired (threads s ! t)) [1, 2, 3, 4, 5] = [True, False, True, True, True]
        \<and> lock s \<noteq> Some 1 \<and> lock s \<noteq> Some 2 \<and> lock s \<noteq> Some 3 \<and> lock s \<noteq> Some 4
        \<and> lock s \<noteq> Some 5
        \<and> (\<exists>raised. lock_calls_of 1 s = [AcquireCall 30 True, ReleaseCall raised])
        \<and> (\<exists>raised. lock_calls_of 2 s = [AcquireCall 30 False, ReleaseCall raised])
        \<and> (\<exists>raised. lock_calls_of 3 s = [AcquireCall 30 True, ReleaseCall raised])
        \<and> (\<exists>raised. lock_calls_of 4 s = [AcquireCall 30 True, ReleaseCall raised])
        \<and> (\<exists>raised. lock_calls_of 5 s = [AcquireCall 30 True, ReleaseCall raised]))
   \<and> (case run (take 6 five_writes) example_device of
      None \<Rightarrow> False
    | Some s \<Rightarrow>
        lock s = Some 1 \<and> pc (threads s ! 2) = Entry
        \<and> (case step (Run 2) s of
              None \<Rightarrow> False
            | Some s' \<Rightarrow> pc (threads s' ! 2) = Warn))"
proof -
  define s where "s = the (run five_writes example_device)"
  have r: "run five_writes example_device = Some s"
    unfolding s_def by (simp add: run_defs example_device_def five_writes_def)
  have len: "1 < length (threads s)" "2 < length (threads s)" "3 < length (threads s)"
    "4 < length (threads s)" "5 < length (threads s)"
    unfolding s_def by (simp_all add: run_defs example_device_def five_writes_def)
  have c: "call (threads s ! 1) = Write ''ID_Einst_WK_akt'' (Some 21) True"
    "call (threads s ! 2) = Write ''ID_Einst_WK_akt'' (Some 22) False"
    "call (threads s ! 3) = Write ''ID_Einst_WK_akt'' (Some 23) False"
    "call (threads s ! 4) = Write ''ID_Einst_WK_akt'' (Some 24) False"
    "call (threads s ! 5) = Write ''ID_Einst_WK_akt'' (Some 25) True"
    unfolding s_def by (simp_all add: run_defs example_device_def five_writes_def)
  have d: "pc (threads s ! 1) = Done (Inr None)"
    "pc (threads s ! 2) = Done (Inl RuntimeError)"
    "pc (threads s ! 3) = Done (Inl LibraryError)"
    "pc (threads s ! 4) = Done (Inl LibraryError)"
    "pc (threads s ! 5) = Done (Inl LibraryError)"
    unfolding s_def by (simp_all add: run_defs example_device_def five_writes_def)
  have a: "acquired (threads s ! 1)" "\<not> acquired (threads s ! 2)" "acquired (threads s ! 3)"
    "acquired (threads s ! 4)" "acquired (threads s ! 5)"
    unfolding s_def by (simp_all add: run_defs example_device_def five_writes_def)
  note w1 = write_releases_lock[OF example_device_init r len(1) c(1), THEN conjunct1,
      rule_format, OF d(1)]
  note w2 = write_releases_lock[OF example_device_init r len(2) c(2), THEN conjunct1,
      rule_format, OF d(2)]
  note w3 = write_releases_lock[OF example_device_init r len(3) c(3), THEN conjunct1,
      rule_format, OF d(3)]
  note w4 = write_releases_lock[OF example_device_init r len(4) c(4), THEN conjunct1,
      rule_format, OF d(4)]
  note w5 = write_releases_lock[OF example_device_init r len(5) c(5), THEN conjunct1,
      rule_format, OF d(5)]
  have first: "map (\<lambda>t. pc (threads s ! t)) [1, 2, 3, 4, 5] =
          [Done (Inr None), Done (Inl RuntimeError), Done (Inl LibraryError),
           Done (Inl LibraryError), Done (Inl LibraryError)]
        \<and> map (\<lambda>t. acquired (threads s ! t)) [1, 2, 3, 4, 5] = [True, False, True, True, True]
        \<and> lock s \<noteq> Some 1 \<and> lock s \<noteq> Some 2 \<and> lock s \<noteq> Some 3 \<and> lock s \<noteq> Some 4
        \<and> lock s \<noteq> Some 5
        \<and> (\<exists>raised. lock_calls_of 1 s = [AcquireCall 30 True, ReleaseCall raised])
        \<and> (\<exists>raised. lock_calls_of 2 s = [AcquireCall 30 False, ReleaseCall raised])
        \<and> (\<exists>raised. lock_calls_of 3 s = [AcquireCall 30 True, ReleaseCall raised])
        \<and> (\<exists>raised. lock_calls_of 4 s = [AcquireCall 30 True, ReleaseCall raised])
        \<and> (\<exists>raised. lock_calls_of 5 s = [AcquireCall 30 True, ReleaseCall raised])"
    using w1 w2 w3 w4 w5 a d by simp
  define s1 where "s1 = the (run (take 6 five_writes) example_device)"
  have r1: "run (take 6 five_writes) example_device = Some s1"
    unfolding s1_def by (simp add: run_defs example_device_def five_writes_def)
  have e: "2 < length (threads s1)"
    "call (threads s1 ! 2) = Write ''ID_Einst_WK_akt'' (Some 22) False"
    "pc (threads s1 ! 2) = Entry" "lock s1 = Some 1"
    unfolding s1_def by (simp_all add: run_defs example_device_def five_writes_def)
  from write_releases_lock[OF example_device_init r1 e(1,2), THEN conjunct2, THEN conjunct1]
    e(3,4)
  obtain s' where st: "step (Run 2) s1 = Some s'" "pc (threads s' ! 2) = Warn"
    by auto
  have second: "lock s1 = Some 1 \<and> pc (threads s1 ! 2) = Entry
        \<and> (case step (Run 2) s1 of
              None \<Rightarrow> False
            | Some s' \<Rightarrow> pc (threads s' ! 2) = Warn)"
    by (simp only: st option.case e simp_thms)
  show ?thesis
    using first second by (simp only: r r1 option.case simp_thms)
qed

text \<open>
  C5, as the claim states it, fails when a call on the handle raises: here the lock is
  acquired and \<^verbatim>\<open>update_immediately_after_write\<close> is true, the flush raises, and the
  follow-up read is never made.
\<close>

theorem write_calls_counterexample:
  "map_option (\<lambda>s. (acquired (threads s ! 1), calls_of 1 s, pc (threads s ! 1)))
     (run [Call (Write ''ID_Einst_WK_akt'' (Some 22) True), Run 1,
           Lib 1 example_lux None, Lib 1 example_lux (Some LibraryError), Run 1] example_device)
   = Some (True, [ParametersSet ''ID_Einst_WK_akt'' (Some 22), HandleWrite],
           Done (Inl LibraryError))"
  by (simp add: run_defs example_device_def calls_of_def)

lemma calls_ok_write:
  assumes "calls_ok th cs rs" and "call th = Write parameter val upd"
    and "lock_ok mine th"
  shows "cs = (if acquired th
               then take (Suc (length (filter (\<lambda>r. r = None) rs))) (write_calls parameter val upd)
               else [])"
    and "\<forall>i. Suc i < length rs \<longrightarrow> rs ! i = None"
    and "acquired th \<and> (pc th = Release None \<or> (\<exists>v. pc th = Done (Inr v)))
         \<longrightarrow> cs = write_calls parameter val upd \<and> rs = map (\<lambda>c. None) cs"
    and "\<forall>e. acquired th \<and> pc th = Release (Some e) \<longrightarrow> rs \<noteq> [] \<and> last rs = Some e"
proof -
  have *: "cs = (if acquired th
               then take (Suc (length (filter (\<lambda>r. r = None) rs))) (write_calls parameter val upd)
               else [])
    \<and> (\<forall>i. Suc i < length rs \<longrightarrow> rs ! i = None)
    \<and> (acquired th \<and> (pc th = Release None \<or> (\<exists>v. pc th = Done (Inr v)))
         \<longrightarrow> cs = write_calls parameter val upd \<and> rs = map (\<lambda>c. None) cs)
    \<and> (\<forall>e. acquired th \<and> pc th = Release (Some e) \<longrightarrow> rs \<noteq> [] \<and> last rs = Some e)"
    using assms
    by (cases "pc th")
       (auto simp: calls_ok_def lock_ok_def in_flight_def write_calls_def normal_end_def
          raised_end_def less_Suc_eq nth_Cons'
          split: if_splits option.splits sum.splits)
  from * show "cs = (if acquired th
               then take (Suc (length (filter (\<lambda>r. r = None) rs))) (write_calls parameter val upd)
               else [])" by blast
  from * show "\<forall>i. Suc i < length rs \<longrightarrow> rs ! i = None" by blast
  from * show "acquired th \<and> (pc th = Release None \<or> (\<exists>v. pc th = Done (Inr v)))
         \<longrightarrow> cs = write_calls parameter val upd \<and> rs = map (\<lambda>c. None) cs" by blast
  from * show "\<forall>e. acquired th \<and> pc th = Release (Some e) \<longrightarrow> rs \<noteq> [] \<and> last rs = Some e"
    by blast
qed

text \<open>
  C5, amended: in every reachable state, the calls on the handle that a
  \<^verbatim>\<open>write(parameter, value, update_immediately_after_write)\<close> has made are an initial
  segment of: set the parameter, flush, and, if \<^verbatim>\<open>update_immediately_after_write\<close>,
  read. None is made without the lock. With the lock, the parameter set is made, and
  each later call is made exactly when the one before it has returned without raising:
  the calls made are one more than the calls that have returned, up to the whole
  sequence, and only the last call made can have raised. Once the \<^verbatim>\<open>try\<close> block has
  ended without an exception (the activation is in the \<^verbatim>\<open>finally\<close> block with no
  exception propagating, or has returned), all of them have been made and have returned,
  in this order, the read if and only if \<^verbatim>\<open>update_immediately_after_write\<close> is true; an
  exception that propagates from the \<^verbatim>\<open>try\<close> block is the one the last call raised.
\<close>

theorem write_calls_in_order:
  assumes "LuxtronikDevice_init Lux_new h p sf tmo x e = Inr s0"
    and "run sch s0 = Some s"
    and "t < length (threads s)"
    and "call (threads s ! t) = Write parameter val upd"
  shows "prefix (calls_of t s)
           ([ParametersSet parameter val, HandleWrite] @ (if upd then [HandleRead] else []))
    \<and> (acquired (threads s ! t) \<longleftrightarrow> calls_of t s \<noteq> [])
    \<and> calls_of t s =
        (if acquired (threads s ! t)
         then take (Suc (length (filter (\<lambda>r. r = None) (returns_of t s))))
                ([ParametersSet parameter val, HandleWrite] @ (if upd then [HandleRead] else []))
         else [])
    \<and> (\<forall>i. Suc i < length (returns_of t s) \<longrightarrow> returns_of t s ! i = None)
    \<and> (acquired (threads s ! t)
         \<and> (pc (threads s ! t) = Release None \<or> (\<exists>v. pc (threads s ! t) = Done (Inr v)))
       \<longrightarrow> calls_of t s =
             [ParametersSet parameter val, HandleWrite] @ (if upd then [HandleRead] else [])
           \<and> returns_of t s = map (\<lambda>c. None) (calls_of t s))
    \<and> (\<forall>ex. acquired (threads s ! t) \<and> pc (threads s ! t) = Release (Some ex)
          \<longrightarrow> returns_of t s \<noteq> [] \<and> last (returns_of t s) = Some ex)"
proof -
  note iv = reachable_inv[OF assms(1,2,3)]
  note ck = calls_ok_write[OF iv(4) assms(4) iv(2)]
  have 3: "calls_of t s =
        (if acquired (threads s ! t)
         then take (Suc (length (filter (\<lambda>r. r = None) (returns_of t s))))
                ([ParametersSet parameter val, HandleWrite] @ (if upd then [HandleRead] else []))
         else [])"
    using ck(1) unfolding write_calls_def .
  have 1: "prefix (calls_of t s)
           ([ParametersSet parameter val, HandleWrite] @ (if upd then [HandleRead] else []))"
    by (subst 3) (simp add: take_is_prefix)
  have 2: "acquired (threads s ! t) \<longleftrightarrow> calls_of t s \<noteq> []"
    by (subst 3) simp
  have 5: "acquired (threads s ! t)
         \<and> (pc (threads s ! t) = Release None \<or> (\<exists>v. pc (threads s ! t) = Done (Inr v)))
       \<longrightarrow> calls_of t s =
             [ParametersSet parameter val, HandleWrite] @ (if upd then [HandleRead] else [])
           \<and> returns_of t s = map (\<lambda>c. None) (calls_of t s)"
    using ck(3) unfolding write_calls_def .
  show ?thesis
    using 1 2 3 ck(2) 5 ck(4) by blast
qed

theorem write_calls_in_order_witness:
  "(case run five_writes example_device of
      None \<Rightarrow> False
    | Some s \<Rightarrow>
        map (\<lambda>t. acquired (threads s ! t)) [1, 2, 3, 4, 5] = [True, False, True, True, True]
        \<and> map (\<lambda>t. returns_of t s) [1, 2, 3, 4, 5] =
            [[None, None, None], [], [Some LibraryError], [None, Some LibraryError],
             [None, None, Some LibraryError]]
        \<and> map (\<lambda>t. calls_of t s) [1, 2, 3, 4, 5] =
            [[ParametersSet ''ID_Einst_WK_akt'' (Some 21), HandleWrite, HandleRead],
             [],
             [ParametersSet ''ID_Einst_WK_akt'' (Some 23)],
             [ParametersSet ''ID_Einst_WK_akt'' (Some 24), HandleWrite],
             [ParametersSet ''ID_Einst_WK_akt'' (Some 25), HandleWrite, HandleRead]])"
proof -
  define s where "s = the (run five_writes example_device)"
  have r: "run five_writes example_device = Some s"
    unfolding s_def by (simp add: run_defs example_device_def five_writes_def)
  have len: "1 < length (threads s)" "2 < length (threads s)" "3 < length (threads s)"
    "4 < length (threads s)" "5 < length (threads s)"
    unfolding s_def by (simp_all add: run_defs example_device_def five_writes_def)
  have c: "call (threads s ! 1) = Write ''ID_Einst_WK_akt'' (Some 21) True"
    "call (threads s ! 2) = Write ''ID_Einst_WK_akt'' (Some 22) False"
    "call (threads s ! 3) = Write ''ID_Einst_WK_akt'' (Some 23) False"
    "call (threads s ! 4) = Write ''ID_Einst_WK_akt'' (Some 24) False"
    "call (threads s ! 5) = Write ''ID_Einst_WK_akt'' (Some 25) True"
    unfolding s_def by (simp_all add: run_defs example_device_def five_writes_def)
  have a: "acquired (threads s ! 1)" "\<not> acquired (threads s ! 2)" "acquired (threads s ! 3)"
    "acquired (threads s ! 4)" "acquired (threads s ! 5)"
    unfolding s_def by (simp_all add: run_defs example_device_def five_writes_def)
  have rs: "returns_of 1 s = [None, None, None]" "returns_of 2 s = []"
    "returns_of 3 s = [Some LibraryError]" "returns_of 4 s = [None, Some LibraryError]"
    "returns_of 5 s = [None, None, Some LibraryError]"
    unfolding s_def
    by (simp_all add: run_defs example_device_def five_writes_def returns_of_def)
  note w1 = write_calls_in_order[OF example_device_init r len(1) c(1), THEN conjunct2,
      THEN conjunct2, THEN conjunct1]
  note w2 = write_calls_in_order[OF example_device_init r len(2) c(2), THEN conjunct2,
      THEN conjunct2, THEN conjunct1]
  note w3 = write_calls_in_order[OF example_device_init r len(3) c(3), THEN conjunct2,
      THEN conjunct2, THEN conjunct1]
  note w4 = write_calls_in_order[OF example_device_init r len(4) c(4), THEN conjunct2,
      THEN conjunct2, THEN conjunct1]
  note w5 = write_calls_in_order[OF example_device_init r len(5) c(5), THEN conjunct2,
      THEN conjunct2, THEN conjunct1]
  have "map (\<lambda>t. acquired (threads s ! t)) [1, 2, 3, 4, 5] = [True, False, True, True, True]
        \<and> map (\<lambda>t. returns_of t s) [1, 2, 3, 4, 5] =
            [[None, None, None], [], [Some LibraryError], [None, Some LibraryError],
             [None, None, Some LibraryError]]
        \<and> map (\<lambda>t. calls_of t s) [1, 2, 3, 4, 5] =
            [[ParametersSet ''ID_Einst_WK_akt'' (Some 21), HandleWrite, HandleRead],
             [],
             [ParametersSet ''ID_Einst_WK_akt'' (Some 23)],
             [ParametersSet ''ID_Einst_WK_akt'' (Some 24), HandleWrite],
             [ParametersSet ''ID_Einst_WK_akt'' (Some 25), HandleWrite, HandleRead]]"
    using w1 w2 w3 w4 w5 a rs by simp
  then show ?thesis
    by (simp only: r option.case simp_thms)
qed

subsection \<open>The timed-out caller\<close>



subsection \<open>The lock timeout\<close>

lemma schema_accepts:
  "(\<exists>c'. CONFIG_SCHEMA DEFAULT_PORT raw = Inr c') \<longleftrightarrow>
      raw_host raw \<noteq> None
      \<and> 1 \<le> (case raw_port raw of None \<Rightarrow> DEFAULT_PORT | Some p \<Rightarrow> p)
      \<and> (case raw_port raw of None \<Rightarrow> DEFAULT_PORT | Some p \<Rightarrow> p) \<le> 65535
      \<and> 0 \<le> (case raw_lock_timeout raw of None \<Rightarrow> 30 | Some n \<Rightarrow> n)"
  by (auto simp: CONFIG_SCHEMA_def Let_def split: option.splits)

lemma schema_lock_timeout:
  assumes "CONFIG_SCHEMA DEFAULT_PORT raw = Inr c"
  shows "conf_lock_timeout c = (case raw_lock_timeout raw of None \<Rightarrow> 30 | Some n \<Rightarrow> n)"
  using assms
  by (auto simp: CONFIG_SCHEMA_def Let_def split: option.splits if_splits)

lemma acquire_error_None:
  "acquire_error n = None \<longleftrightarrow> - 1 \<le> n \<and> n \<le> TIMEOUT_MAX"
  by (auto simp: acquire_error_def TIMEOUT_MAX_def)

lemma init_succeeds:
  assumes "acquire_error tmo = None"
  shows "\<exists>s. LuxtronikDevice_init Lux_new h p sf tmo x None = Inr s"
  using assms by (simp add: LuxtronikDevice_init_def step_def spawn_def prims)

text \<open>
  C7, as the claim states it, fails for a timeout above \<^verbatim>\<open>threading.TIMEOUT_MAX\<close>: the
  schema accepts 9223372037, and the \<^verbatim>\<open>update\<close> of the constructor then neither waits on
  the lock nor skips the read with a warning: its \<^verbatim>\<open>acquire\<close> raises OverflowError, the
  \<^verbatim>\<open>finally\<close> block raises RuntimeError on the unlocked lock, and no device is built.
\<close>

theorem lock_timeout_overflow_counterexample:
  "CONFIG_SCHEMA 8889 (example_raw\<lparr>raw_lock_timeout := Some 9223372037\<rparr>)
     = Inr (example_conf\<lparr>conf_lock_timeout := 9223372037\<rparr>)
   \<and> setup_int (\<lambda>h p sf. example_lux) (example_conf\<lparr>conf_lock_timeout := 9223372037\<rparr>)
        example_lux None = Inl RuntimeError
   \<and> map_option (\<lambda>s. (pc (threads s ! 0), lock_calls_of 0 s, calls_of 0 s, warnings_of 0 s))
       (run [Call Update, Run 0, Run 0]
          \<lparr>lock = None, host = ''heatpump'', port = 8889, lock_timeout_sec = 9223372037,
           luxtronik = example_lux, handle_calls = [], handle_returns = [], lock_log = [],
           warnings = [], threads = []\<rparr>)
     = Some (Done (Inl RuntimeError),
             [AcquireRaise 9223372037 OverflowError, ReleaseCall True], [], [])"
  by (simp add: CONFIG_SCHEMA_def example_raw_def example_conf_def setup_int_def
      LuxtronikDevice_init_def run_defs log_defs)

text \<open>
  C7, amended: the timeout is the one value \<^verbatim>\<open>lock_timeout\<close> of the configuration; the
  schema accepts a configuration exactly when it gives a host, a port from 1 to 65535
  (its own or the default) and no negative timeout, and the validated timeout is the
  one supplied, or 30 when none is. \<^verbatim>\<open>setup_int\<close> builds a device (its first read
  returning) exactly when the timeout is from -1 up to \<^verbatim>\<open>threading.TIMEOUT_MAX\<close>. On a
  device that was built, no step changes the timeout, and every \<^verbatim>\<open>update\<close> and every
  \<^verbatim>\<open>write\<close> calls \<^verbatim>\<open>acquire\<close> exactly once with it: on an unlocked lock it gets the lock,
  on a locked one it times out (unless the timeout is -1) and goes to the warning,
  having made no call on the handle.
\<close>

theorem lock_timeout_configured:
  "((\<exists>c'. CONFIG_SCHEMA DEFAULT_PORT raw = Inr c') \<longleftrightarrow>
      raw_host raw \<noteq> None
      \<and> 1 \<le> (case raw_port raw of None \<Rightarrow> DEFAULT_PORT | Some p \<Rightarrow> p)
      \<and> (case raw_port raw of None \<Rightarrow> DEFAULT_PORT | Some p \<Rightarrow> p) \<le> 65535
      \<and> 0 \<le> (case raw_lock_timeout raw of None \<Rightarrow> 30 | Some n \<Rightarrow> n))
   \<and> (CONFIG_SCHEMA DEFAULT_PORT raw = Inr c \<longrightarrow>
        conf_lock_timeout c = (case raw_lock_timeout raw of None \<Rightarrow> 30 | Some n \<Rightarrow> n))
   \<and> ((\<exists>s1. setup_int Lux_new c x None = Inr s1) \<longleftrightarrow>
        - 1 \<le> conf_lock_timeout c \<and> conf_lock_timeout c \<le> TIMEOUT_MAX)
   \<and> (setup_int Lux_new c x e = Inr dev \<and> run sch dev = Some s \<and> t < length (threads s)
       \<and> (call (threads s ! t) = Update \<or> call (threads s ! t) = Write parameter val upd)
       \<longrightarrow>
         lock_timeout_sec s = conf_lock_timeout c
         \<and> (pc (threads s ! t) = Entry \<and> lock s = None \<longrightarrow>
              (\<exists>s'. step (Run t) s = Some s' \<and> acquired (threads s' ! t) \<and> lock s' = Some t
                 \<and> lock_calls_of t s' = [AcquireCall (conf_lock_timeout c) True]))
         \<and> (pc (threads s ! t) = Entry \<and> lock s \<noteq> None \<and> conf_lock_timeout c \<noteq> - 1 \<longrightarrow>
              (\<exists>s'. step (Run t) s = Some s' \<and> pc (threads s' ! t) = Warn
                 \<and> calls_of t s' = []
                 \<and> lock_calls_of t s' = [AcquireCall (conf_lock_timeout c) False]))
         \<and> (pc (threads s ! t) \<noteq> Entry \<longrightarrow>
              lock_calls_of t s =
                [AcquireCall (conf_lock_timeout c) (acquired (threads s ! t))]
              \<or> (\<exists>raised. lock_calls_of t s =
                    [AcquireCall (conf_lock_timeout c) (acquired (threads s ! t)),
                     ReleaseCall raised])))"
proof -
  let ?tmo = "conf_lock_timeout c"
  have su: "setup_int Lux_new c y e' =
      LuxtronikDevice_init Lux_new (conf_host c) (conf_port c) (conf_safe c) ?tmo y e'"
    for y e'
    by (simp add: setup_int_def Let_def)
  have 3: "(\<exists>s1. setup_int Lux_new c x None = Inr s1) \<longleftrightarrow>
        - 1 \<le> ?tmo \<and> ?tmo \<le> TIMEOUT_MAX"
  proof
    assume "\<exists>s1. setup_int Lux_new c x None = Inr s1"
    then obtain s1 where "LuxtronikDevice_init Lux_new (conf_host c) (conf_port c) (conf_safe c)
        ?tmo x None = Inr s1"
      unfolding su by blast
    from init_run(1)[OF this] show "- 1 \<le> ?tmo \<and> ?tmo \<le> TIMEOUT_MAX"
      by (simp add: acquire_error_None)
  next
    assume "- 1 \<le> ?tmo \<and> ?tmo \<le> TIMEOUT_MAX"
    then have "acquire_error ?tmo = None" by (simp add: acquire_error_None)
    from init_succeeds[OF this] show "\<exists>s1. setup_int Lux_new c x None = Inr s1"
      unfolding su by blast
  qed
  have 4: "lock_timeout_sec s = ?tmo
         \<and> (pc (threads s ! t) = Entry \<and> lock s = None \<longrightarrow>
              (\<exists>s'. step (Run t) s = Some s' \<and> acquired (threads s' ! t) \<and> lock s' = Some t
                 \<and> lock_calls_of t s' = [AcquireCall ?tmo True]))
         \<and> (pc (threads s ! t) = Entry \<and> lock s \<noteq> None \<and> ?tmo \<noteq> - 1 \<longrightarrow>
              (\<exists>s'. step (Run t) s = Some s' \<and> pc (threads s' ! t) = Warn
                 \<and> calls_of t s' = []
                 \<and> lock_calls_of t s' = [AcquireCall ?tmo False]))
         \<and> (pc (threads s ! t) \<noteq> Entry \<longrightarrow>
              lock_calls_of t s = [AcquireCall ?tmo (acquired (threads s ! t))]
              \<or> (\<exists>raised. lock_calls_of t s =
                    [AcquireCall ?tmo (acquired (threads s ! t)), ReleaseCall raised]))"
    if h: "setup_int Lux_new c x e = Inr dev" "run sch dev = Some s" "t < length (threads s)"
      "call (threads s ! t) = Update \<or> call (threads s ! t) = Write parameter val upd"
  proof -
    have init: "LuxtronikDevice_init Lux_new (conf_host c) (conf_port c) (conf_safe c) ?tmo x e
                  = Inr dev"
      using h(1) unfolding su .
    note iv = reachable_inv[OF init h(2,3)]
    have na: "\<not> acquired (threads s ! t)" and l0: "lock_calls_of t s = []"
      and c0: "calls_of t s = []"
      if "pc (threads s ! t) = Entry"
      using iv(2,3,4) h(4) that by (auto simp: lock_ok_def lock_log_ok_def calls_ok_def)
    have step_any: "\<exists>s'. step (Run t) s = Some s'
           \<and> pc (threads s' ! t) \<noteq> Entry
           \<and> (lock s \<noteq> None \<longrightarrow> pc (threads s' ! t) = Warn)
           \<and> acquired (threads s' ! t) = (lock s = None)
           \<and> lock s' = (if lock s = None then Some t else lock s)
           \<and> lock_calls_of t s' = [AcquireCall ?tmo (lock s = None)]
           \<and> (lock s \<noteq> None \<longrightarrow> calls_of t s' = [])"
      if en: "pc (threads s ! t) = Entry" and w: "lock s = None \<or> ?tmo \<noteq> - 1"
    proof -
      have ok: "acquire_error (lock_timeout_sec s) = None"
        "lock s = None \<or> lock_timeout_sec s \<noteq> - 1"
        using iv(1,6) w by simp_all
      from h(4) show ?thesis
      proof
        assume "call (threads s ! t) = Update"
        from entry_step_update[OF h(3) this en ok] na[OF en] l0[OF en] c0[OF en] iv(1)
        show ?thesis by auto
      next
        assume "call (threads s ! t) = Write parameter val upd"
        from entry_step_write[OF h(3) this en ok] na[OF en] l0[OF en] c0[OF en] iv(1)
        show ?thesis by auto
      qed
    qed
    have a: "\<exists>s'. step (Run t) s = Some s' \<and> acquired (threads s' ! t) \<and> lock s' = Some t
                 \<and> lock_calls_of t s' = [AcquireCall ?tmo True]"
      if "pc (threads s ! t) = Entry" "lock s = None"
      using step_any[OF that(1)] that(2) by auto
    have b: "\<exists>s'. step (Run t) s = Some s' \<and> pc (threads s' ! t) = Warn
                 \<and> calls_of t s' = []
                 \<and> lock_calls_of t s' = [AcquireCall ?tmo False]"
      if "pc (threads s ! t) = Entry" "lock s \<noteq> None" "?tmo \<noteq> - 1"
      using step_any[OF that(1)] that(2,3) by auto
    have d: "lock_calls_of t s = [AcquireCall ?tmo (acquired (threads s ! t))]
              \<or> (\<exists>raised. lock_calls_of t s =
                    [AcquireCall ?tmo (acquired (threads s ! t)), ReleaseCall raised])"
      if "pc (threads s ! t) \<noteq> Entry"
      using iv(3) h(4) that
      by (cases "pc (threads s ! t)") (auto simp: lock_log_ok_def)
    show ?thesis
      using iv(1) a b d by blast
  qed
  show ?thesis
    using schema_accepts[of DEFAULT_PORT raw] schema_lock_timeout[of DEFAULT_PORT raw c] 3 4
    by blast
qed

lemma example_schema: "CONFIG_SCHEMA 8889 example_raw = Inr example_conf"
  by (simp add: CONFIG_SCHEMA_def example_raw_def example_conf_def)

lemma example_setup:
  "setup_int (\<lambda>h p sf. example_lux) example_conf example_lux None = Inr example_device"
  using example_device_init by (simp add: setup_int_def example_conf_def)

lemma example_setup5:
  "setup_int (\<lambda>h p sf. example_lux) (example_conf\<lparr>conf_lock_timeout := 5\<rparr>) example_lux None
     = Inr example_device5"
  by (simp add: setup_int_def example_conf_def LuxtronikDevice_init_def run_defs
      example_device5_def example_device_def)

theorem lock_timeout_configured_witness:
  "CONFIG_SCHEMA 8889 example_raw = Inr example_conf
   \<and> raw_lock_timeout example_raw = None
   \<and> conf_lock_timeout example_conf = 30
   \<and> CONFIG_SCHEMA 8889 (example_raw\<lparr>raw_lock_timeout := Some 5\<rparr>)
       = Inr (example_conf\<lparr>conf_lock_timeout := 5\<rparr>)
   \<and> (case run [Call (write_parameter example_conf ''ID_Einst_WK_akt'' (Some 22)), Call Update,
                 Run 1] example_device5 of
        None \<Rightarrow> False
      | Some s \<Rightarrow> lock_timeout_sec s = 5 \<and> lock s = Some 1
          \<and> call (threads s ! 2) = Update \<and> pc (threads s ! 2) = Entry
          \<and> (case step (Run 2) s of
                None \<Rightarrow> False
              | Some s' \<Rightarrow> pc (threads s' ! 2) = Warn
                  \<and> lock_calls_of 2 s' = [AcquireCall 5 False]))
   \<and> (case run [Call Update, Call (write_parameter example_conf ''ID_Einst_WK_akt'' (Some 22))]
          example_device of
        None \<Rightarrow> False
      | Some s \<Rightarrow> lock_timeout_sec s = 30 \<and> lock s = None
          \<and> call (threads s ! 2) = Write ''ID_Einst_WK_akt'' (Some 22) False
          \<and> pc (threads s ! 2) = Entry
          \<and> (case step (Run 2) s of
                None \<Rightarrow> False
              | Some s' \<Rightarrow> acquired (threads s' ! 2) \<and> lock s' = Some 2
                  \<and> lock_calls_of 2 s' = [AcquireCall 30 True]))"
proof -
  have n: "raw_lock_timeout example_raw = None"
    by (simp add: example_raw_def)
  have t30: "conf_lock_timeout example_conf = 30"
    using lock_timeout_configured[where raw = example_raw and c = example_conf
        and DEFAULT_PORT = 8889, THEN conjunct2, THEN conjunct1] example_schema n
    by simp
  have example_schema5: "CONFIG_SCHEMA 8889 (example_raw\<lparr>raw_lock_timeout := Some 5\<rparr>)
     = Inr (example_conf\<lparr>conf_lock_timeout := 5\<rparr>)"
    by (simp add: CONFIG_SCHEMA_def example_raw_def example_conf_def)
  have t5: "conf_lock_timeout (example_conf\<lparr>conf_lock_timeout := 5\<rparr>) = 5"
    using lock_timeout_configured[where raw = "example_raw\<lparr>raw_lock_timeout := Some 5\<rparr>"
        and c = "example_conf\<lparr>conf_lock_timeout := 5\<rparr>"
        and DEFAULT_PORT = 8889, THEN conjunct2, THEN conjunct1] example_schema5
    by (simp add: example_raw_def)
  define sa where
    "sa = the (run [Call (write_parameter example_conf ''ID_Einst_WK_akt'' (Some 22)),
                    Call Update, Run 1] example_device5)"
  have ra: "run [Call (write_parameter example_conf ''ID_Einst_WK_akt'' (Some 22)), Call Update,
                 Run 1] example_device5 = Some sa"
    unfolding sa_def
    by (simp add: run_defs example_device5_def example_device_def write_parameter_def)
  have a: "2 < length (threads sa)" "call (threads sa ! 2) = Update"
    "pc (threads sa ! 2) = Entry" "lock sa = Some 1" "step (Run 2) sa \<noteq> None"
    unfolding sa_def
    by (simp_all add: run_defs example_device5_def example_device_def write_parameter_def)
  note A = lock_timeout_configured[where c = "example_conf\<lparr>conf_lock_timeout := 5\<rparr>"
      and Lux_new = "\<lambda>h p sf. example_lux" and x = example_lux and e = None
      and dev = example_device5 and s = sa and t = 2
      and sch = "[Call (write_parameter example_conf ''ID_Einst_WK_akt'' (Some 22)),
                  Call Update, Run 1]",
      THEN conjunct2, THEN conjunct2, THEN conjunct2, rule_format,
      OF conjI[OF example_setup5 conjI[OF ra conjI[OF a(1) disjI1[OF a(2)]]]]]
  from A a(3,4) t5 obtain sa' where sta: "step (Run 2) sa = Some sa'"
    "pc (threads sa' ! 2) = Warn" "lock_calls_of 2 sa' = [AcquireCall 5 False]"
    and ta: "lock_timeout_sec sa = 5"
    by auto
  have first: "(case run [Call (write_parameter example_conf ''ID_Einst_WK_akt'' (Some 22)),
                 Call Update, Run 1] example_device5 of
        None \<Rightarrow> False
      | Some s \<Rightarrow> lock_timeout_sec s = 5 \<and> lock s = Some 1
          \<and> call (threads s ! 2) = Update \<and> pc (threads s ! 2) = Entry
          \<and> (case step (Run 2) s of
                None \<Rightarrow> False
              | Some s' \<Rightarrow> pc (threads s' ! 2) = Warn
                  \<and> lock_calls_of 2 s' = [AcquireCall 5 False]))"
    using a(5) by (simp only: ra sta ta option.case a(1-4) simp_thms)
  define sb where
    "sb = the (run [Call Update, Call (write_parameter example_conf ''ID_Einst_WK_akt'' (Some 22))]
                 example_device)"
  have rb: "run [Call Update, Call (write_parameter example_conf ''ID_Einst_WK_akt'' (Some 22))]
              example_device = Some sb"
    unfolding sb_def by (simp add: run_defs example_device_def write_parameter_def)
  have b: "2 < length (threads sb)"
    "call (threads sb ! 2) = Write ''ID_Einst_WK_akt'' (Some 22) False"
    "pc (threads sb ! 2) = Entry" "lock sb = None"
    unfolding sb_def
    by (simp_all add: run_defs example_device_def write_parameter_def example_conf_def)
  note B = lock_timeout_configured[where c = example_conf
      and Lux_new = "\<lambda>h p sf. example_lux" and x = example_lux and e = None
      and dev = example_device and s = sb and t = 2
      and sch = "[Call Update,
                  Call (write_parameter example_conf ''ID_Einst_WK_akt'' (Some 22))]",
      THEN conjunct2, THEN conjunct2, THEN conjunct2, rule_format,
      OF conjI[OF example_setup conjI[OF rb conjI[OF b(1) disjI2[OF b(2)]]]]]
  from B b(3,4) t30 obtain sb' where stb: "step (Run 2) sb = Some sb'"
    "acquired (threads sb' ! 2)" "lock sb' = Some 2"
    "lock_calls_of 2 sb' = [AcquireCall 30 True]"
    and tb: "lock_timeout_sec sb = 30"
    by auto
  have second: "(case run [Call Update,
                  Call (write_parameter example_conf ''ID_Einst_WK_akt'' (Some 22))]
          example_device of
        None \<Rightarrow> False
      | Some s \<Rightarrow> lock_timeout_sec s = 30 \<and> lock s = None
          \<and> call (threads s ! 2) = Write ''ID_Einst_WK_akt'' (Some 22) False
          \<and> pc (threads s ! 2) = Entry
          \<and> (case step (Run 2) s of
                None \<Rightarrow> False
              | Some s' \<Rightarrow> acquired (threads s' ! 2) \<and> lock s' = Some 2
                  \<and> lock_calls_of 2 s' = [AcquireCall 30 True]))"
    by (simp only: rb stb tb option.case b simp_thms)
  show ?thesis
    using example_schema n t30 example_schema5 first second by blast
qed

subsection \<open>Further properties\<close>

text \<open>
  A lock timeout skips the operation: an \<^verbatim>\<open>update\<close> or \<^verbatim>\<open>write\<close> whose \<^verbatim>\<open>acquire\<close>
  returned \<^verbatim>\<open>False\<close> makes no call on the handle, calls \<^verbatim>\<open>acquire\<close> once and never
  again, and logs exactly one warning, which names the timeout.
\<close>

theorem timeout_skips_operation:
  assumes "LuxtronikDevice_init Lux_new h p sf tmo x e = Inr s0"
    and "run sch s0 = Some s"
    and "t < length (threads s)"
    and "call (threads s ! t) = Update \<or> call (threads s ! t) = Write parameter val upd"
    and "\<not> acquired (threads s ! t)"
    and "pc (threads s ! t) \<noteq> Entry"
  shows "calls_of t s = []
    \<and> (lock_calls_of t s = [AcquireCall tmo False]
         \<or> (\<exists>raised. lock_calls_of t s = [AcquireCall tmo False, ReleaseCall raised]))
    \<and> warnings_of t s =
        (if pc (threads s ! t) = Warn then []
         else if call (threads s ! t) = Update then [ReadLockTimeout tmo]
         else [WriteLockTimeout parameter val tmo])"
proof -
  note iv = reachable_inv[OF assms(1,2,3)]
  have 1: "calls_of t s = []"
    using iv(4) assms(4,5) by (auto simp: calls_ok_def)
  have 2: "lock_calls_of t s = [AcquireCall tmo False]
         \<or> (\<exists>raised. lock_calls_of t s = [AcquireCall tmo False, ReleaseCall raised])"
  proof (cases "pc (threads s ! t)")
    case (Done r)
    then obtain raised where
      "lock_calls_of t s = [AcquireCall tmo (acquired (threads s ! t)), ReleaseCall raised]"
      using iv(3) assms(4) by (auto simp: lock_log_ok_def)
    then show ?thesis using assms(5) by simp
  qed (use iv(3) assms(4,5,6) in \<open>auto simp: lock_log_ok_def\<close>)
  have 3: "warnings_of t s =
        (if pc (threads s ! t) = Warn then []
         else if call (threads s ! t) = Update then [ReadLockTimeout tmo]
         else [WriteLockTimeout parameter val tmo])"
    using iv(5) assms(4,5,6) by (auto simp: warns_ok_def)
  show ?thesis using 1 2 3 by blast
qed

theorem timeout_skips_operation_witness:
  "(case run [Call Update, Call (Write ''ID_Einst_WK_akt'' (Some 24) True), Run 1, Run 2, Run 2]
          example_device of
      None \<Rightarrow> False
    | Some s \<Rightarrow>
        \<not> acquired (threads s ! 2) \<and> pc (threads s ! 2) = Release None
        \<and> calls_of 2 s = []
        \<and> warnings_of 2 s = [WriteLockTimeout ''ID_Einst_WK_akt'' (Some 24) 30])"
proof -
  define s where
    "s = the (run [Call Update, Call (Write ''ID_Einst_WK_akt'' (Some 24) True),
                   Run 1, Run 2, Run 2] example_device)"
  have r: "run [Call Update, Call (Write ''ID_Einst_WK_akt'' (Some 24) True), Run 1, Run 2, Run 2]
             example_device = Some s"
    unfolding s_def by (simp add: run_defs example_device_def)
  have a: "2 < length (threads s)"
    and b: "call (threads s ! 2) = Update
            \<or> call (threads s ! 2) = Write ''ID_Einst_WK_akt'' (Some 24) True"
    and b': "call (threads s ! 2) \<noteq> Update"
    and c: "\<not> acquired (threads s ! 2)"
    and d: "pc (threads s ! 2) = Release None"
    unfolding s_def by (simp_all add: run_defs example_device_def)
  have d': "pc (threads s ! 2) \<noteq> Entry" "pc (threads s ! 2) \<noteq> Warn"
    using d by simp_all
  from timeout_skips_operation[OF example_device_init r a b c d'(1)] b' d'(2)
  have "calls_of 2 s = []"
    and "warnings_of 2 s = [WriteLockTimeout ''ID_Einst_WK_akt'' (Some 24) 30]"
    by simp_all
  then show ?thesis
    by (simp only: r option.case c d simp_thms)
qed

end
